theory Spec2Isabelle
  imports Complex_Main "HOL-Library.Sublist"
begin

section \<open>Common data\<close>

text \<open>
  A JavaScript exception is modelled by the message of the thrown \<open>Error\<close> object;
  a function that may throw returns \<open>js_error + 'a\<close>, with \<open>Inl\<close> for the throw.
\<close>

datatype js_error = Error (message: string)

section \<open>Interval merger (src/lib/downloader.js, sponsorComplexFilter, lines 58-68)\<close>

text \<open>
  A segment as returned by the segment provider: \<open>{startTime, endTime}\<close> in seconds.
  JavaScript numbers that are finite are rationals, and the code only compares them and
  takes \<open>Math.max\<close>, so \<open>rat\<close> is exact here.
\<close>

record segment =
  startTime :: rat
  endTime :: rat

text \<open>
  The callback of \<open>reduce\<close>: \<open>previousSegment\<close> is \<open>acc[acc.length - 1]\<close>
  (undefined when \<open>acc\<close> is empty); when it exists and
  \<open>previousSegment.endTime > startTime\<close> its end is overwritten with the maximum,
  otherwise a fresh object is pushed.
\<close>

definition mergeStep :: "segment list \<Rightarrow> segment \<Rightarrow> segment list" where
  "mergeStep acc seg =
     (if acc \<noteq> [] \<and> endTime (last acc) > startTime seg
      then butlast acc @ [(last acc)\<lparr>endTime := max (endTime seg) (endTime (last acc))\<rparr>]
      else acc @ [\<lparr>startTime = startTime seg, endTime = endTime seg\<rparr>])"

text \<open>
  \<open>.sort((a, b) => a.startTime - b.startTime).reduce(..., [])\<close>: the sort of the
  language is stable, as \<open>sort_key\<close> is.
\<close>

definition mergeSegments :: "segment list \<Rightarrow> segment list" where
  "mergeSegments segs = foldl mergeStep [] (sort_key startTime segs)"

text \<open>Properties of lists of segments: what the merger is to achieve.\<close>

definition wellFormed :: "segment \<Rightarrow> bool" where
  "wellFormed s = (startTime s < endTime s)"

definition points :: "segment \<Rightarrow> rat set" where
  "points s = {t. startTime s \<le> t \<and> t < endTime s}"

definition covered :: "segment list \<Rightarrow> rat set" where
  "covered segs = (\<Union>s \<in> set segs. points s)"

definition nonOverlapping :: "segment list \<Rightarrow> bool" where
  "nonOverlapping segs = sorted_wrt (\<lambda>a b. endTime a \<le> startTime b) segs"

definition nonAdjacent :: "segment list \<Rightarrow> bool" where
  "nonAdjacent segs = sorted_wrt (\<lambda>a b. endTime a < startTime b) segs"

text \<open>The invariant of the accumulator while the merger walks the sorted segments.\<close>

definition chainOK :: "segment list \<Rightarrow> bool" where
  "chainOK acc = (nonOverlapping acc \<and> (\<forall>s \<in> set acc. wellFormed s))"

section \<open>End-of-run report (src/unnamed/part_003, generateReport, lines 155-186)\<close>

text \<open>
  The fields of an item that the orchestrator and the report read. The flags
  \<open>cached\<close> and \<open>failed\<close> are absent on a fresh item (\<open>None\<close>) and are only ever
  assigned \<open>true\<close> or \<open>false\<close>. \<open>URL\<close> is present on direct-link items only, and
  \<open>cover_url\<close> may be missing.
\<close>

record item =
  itemId :: string
  name :: string
  album_name :: string
  artists :: "string list"
  cover_url :: "string option"
  URL :: "string option"
  lyrics :: "string option"
  cached :: "bool option"
  failed :: "bool option"

record itemList =
  listName :: string
  listType :: string
  items :: "item list"

text \<open>\<open>item => item.failed\<close>: truthy only when the flag is set to \<open>true\<close>.\<close>

definition isFailed :: "item \<Rightarrow> bool" where
  "isFailed it = (failed it = Some True)"

text \<open>What \<open>generateReport\<close> computes for one list before it logs it.\<close>

record listReport =
  totalItems :: nat
  failedItems :: "item list"
  successCount :: int

definition reportList :: "itemList \<Rightarrow> listReport" where
  "reportList result =
     (let listItems = items result;
          total = length listItems;
          failedIs = filter isFailed listItems
      in \<lparr>totalItems = total, failedItems = failedIs,
          successCount = int total - int (length failedIs)\<rparr>)"

text \<open>
  \<open>generateReport\<close> returns at once on an empty result list, otherwise it reports
  every list in order.
\<close>

definition generateReport :: "itemList list \<Rightarrow> listReport list" where
  "generateReport listResults = (if listResults = [] then [] else map reportList listResults)"

section \<open>Credentialed API gate (src/unnamed/part_000, callSpotifyApi, lines 238-263)\<close>

text \<open>Template literals print a number in decimal.\<close>

fun decimal :: "nat \<Rightarrow> string" where
  "decimal n =
     (if n < 10 then [''0123456789'' ! n]
      else decimal (n div 10) @ [''0123456789'' ! (n mod 10)])"

declare decimal.simps [simp del]

text \<open>
  What a run of \<open>callSpotifyApi\<close> does to the outside world, in order: the awaited
  \<open>verifyCredentials()\<close>, the awaited \<open>apiCall()\<close> of a given try, and the
  \<open>setTimeout\<close> wait in milliseconds. Logging is left out.
\<close>

datatype gateEvent = VerifyCredentials | ApiCall nat | Wait nat

text \<open>
  The collaborators, as they answer at the try with a given number:
  \<open>verifyCredentials()\<close> resolves (\<open>None\<close>) or rejects, \<open>apiCall()\<close> resolves with a
  value or rejects with an error.
\<close>

record 'a gateEnv =
  verifyOutcome :: "nat \<Rightarrow> js_error option"
  apiOutcome :: "nat \<Rightarrow> js_error + 'a"

definition maxRetries :: nat where
  "maxRetries = 5"

text \<open>
  The \<open>while (tries <= maxRetries)\<close> loop. \<open>verifyCredentials\<close> is awaited outside the
  \<open>try\<close>, so its rejection leaves the function at once; an error of \<open>apiCall\<close> is caught,
  stored in \<open>lastError\<close>, followed by the wait of \<open>TIMEOUT_RETRY * 1000\<close> ms when
  \<open>tries < maxRetries\<close>, and \<open>tries++\<close>. \<open>TIMEOUT_RETRY\<close> is a constant of
  constants.js, taken here as the parameter \<open>timeoutRetry\<close>.
\<close>

function callSpotifyApi_loop ::
  "nat \<Rightarrow> 'a gateEnv \<Rightarrow> nat \<Rightarrow> js_error option \<Rightarrow> gateEvent list \<Rightarrow> gateEvent list \<times> (js_error + 'a)"
where
  "callSpotifyApi_loop timeoutRetry env tries lastError trace =
     (if tries \<le> maxRetries then
        (case verifyOutcome env tries of
           Some authError \<Rightarrow> (trace @ [VerifyCredentials], Inl authError)
         | None \<Rightarrow>
            (case apiOutcome env tries of
               Inr v \<Rightarrow> (trace @ [VerifyCredentials, ApiCall tries], Inr v)
             | Inl error \<Rightarrow>
                 callSpotifyApi_loop timeoutRetry env (tries + 1) (Some error)
                   (trace @ [VerifyCredentials, ApiCall tries] @
                      (if tries < maxRetries then [Wait (timeoutRetry * 1000)] else []))))
      else
        (trace,
         Inl (case lastError of
                Some e \<Rightarrow> Error (''Spotify API failed after '' @ decimal maxRetries @ '' retries: '' @ message e)
              | None \<Rightarrow> Error ''TypeError: Cannot read properties of undefined (reading 'message')'')))"
  by pat_completeness auto
termination
  by (relation "measure (\<lambda>(t, env, tries, l, tr). Suc maxRetries - tries)") auto

declare callSpotifyApi_loop.simps [simp del]

definition callSpotifyApi :: "nat \<Rightarrow> 'a gateEnv \<Rightarrow> gateEvent list \<times> (js_error + 'a)" where
  "callSpotifyApi timeoutRetry env = callSpotifyApi_loop timeoutRetry env 1 None []"

definition isWait :: "gateEvent \<Rightarrow> bool" where
  "isWait e = (case e of Wait _ \<Rightarrow> True | _ \<Rightarrow> False)"

definition isApiCall :: "gateEvent \<Rightarrow> bool" where
  "isApiCall e = (case e of ApiCall _ \<Rightarrow> True | _ \<Rightarrow> False)"

text \<open>Every call of the underlying operation comes directly after a credential check.\<close>

definition callsVerified :: "gateEvent list \<Rightarrow> bool" where
  "callsVerified tr =
     (\<forall>i < length tr. isApiCall (tr ! i) \<longrightarrow> 0 < i \<and> tr ! (i - 1) = VerifyCredentials)"

text \<open>
  The trace of the tries before try \<open>k\<close> when each of them failed: the credential check,
  the call and the wait of every try from 1 to \<open>k - 1\<close>.
\<close>

definition failedTries :: "nat \<Rightarrow> nat \<Rightarrow> gateEvent list" where
  "failedTries timeoutRetry k =
     concat (map (\<lambda>n. [VerifyCredentials, ApiCall n, Wait (timeoutRetry * 1000)]) [1..<k])"

text \<open>A provider that rejects the first four tries and answers the fifth.\<close>

definition rateLimited :: "nat gateEnv" where
  "rateLimited = \<lparr>verifyOutcome = (\<lambda>n. None),
                  apiOutcome = (\<lambda>n. if n < 5 then Inl (Error ''Too Many Requests'') else Inr 42)\<rparr>"

text \<open>A provider that rejects the first try and answers the second.\<close>

definition failsOnce :: "nat gateEnv" where
  "failsOnce = \<lparr>verifyOutcome = (\<lambda>n. None),
                apiOutcome = (\<lambda>n. if n < 2 then Inl (Error ''ECONNRESET'') else Inr 7)\<rparr>"

section \<open>Strings of the language\<close>

text \<open>
  A string of the language is a sequence of code units. The strings of this development
  are the lists of code units below 256, the Latin-1 range, on which the string functions
  below are those of the language. \<open>toLowerCase\<close> maps \<open>A..Z\<close> to \<open>a..z\<close> and the
  capital letters \<open>U+00C0..U+00DE\<close>, without the multiplication sign \<open>U+00D7\<close>, to the
  small letters \<open>U+00E0..U+00FE\<close>; every other code unit below 256 is its own lower case.
\<close>

definition upperCaseLetters :: string where
  "upperCaseLetters =
     ''ABCDEFGHIJKLMNOPQRSTUVWXYZ'' @
     [CHR 0xC0, CHR 0xC1, CHR 0xC2, CHR 0xC3, CHR 0xC4, CHR 0xC5, CHR 0xC6, CHR 0xC7,
      CHR 0xC8, CHR 0xC9, CHR 0xCA, CHR 0xCB, CHR 0xCC, CHR 0xCD, CHR 0xCE, CHR 0xCF,
      CHR 0xD0, CHR 0xD1, CHR 0xD2, CHR 0xD3, CHR 0xD4, CHR 0xD5, CHR 0xD6, CHR 0xD8,
      CHR 0xD9, CHR 0xDA, CHR 0xDB, CHR 0xDC, CHR 0xDD, CHR 0xDE]"

definition lowerCaseLetters :: string where
  "lowerCaseLetters =
     ''abcdefghijklmnopqrstuvwxyz'' @
     [CHR 0xE0, CHR 0xE1, CHR 0xE2, CHR 0xE3, CHR 0xE4, CHR 0xE5, CHR 0xE6, CHR 0xE7,
      CHR 0xE8, CHR 0xE9, CHR 0xEA, CHR 0xEB, CHR 0xEC, CHR 0xED, CHR 0xEE, CHR 0xEF,
      CHR 0xF0, CHR 0xF1, CHR 0xF2, CHR 0xF3, CHR 0xF4, CHR 0xF5, CHR 0xF6, CHR 0xF8,
      CHR 0xF9, CHR 0xFA, CHR 0xFB, CHR 0xFC, CHR 0xFD, CHR 0xFE]"

definition toLowerCaseChar :: "char \<Rightarrow> char" where
  "toLowerCaseChar c =
     (case map_of (zip upperCaseLetters lowerCaseLetters) c of
        Some l \<Rightarrow> l
      | None \<Rightarrow> c)"

definition toLowerCase :: "string \<Rightarrow> string" where
  "toLowerCase s = map toLowerCaseChar s"

text \<open>\<open>hay.includes(needle)\<close>: \<open>needle\<close> occurs in \<open>hay\<close> as a contiguous substring.\<close>

fun jsIncludes :: "string \<Rightarrow> string \<Rightarrow> bool" where
  "jsIncludes [] needle = (needle = [])"
| "jsIncludes (c # cs) needle = (prefix needle (c # cs) \<or> jsIncludes cs needle)"

text \<open>
  The white space that \<open>trim()\<close> strips and \<open>\s\<close> matches: the white space and the
  line terminators of the language. Below 256 these are the tab, line feed, vertical tab,
  form feed, carriage return, the space and the no-break space \<open>U+00A0\<close>. The line
  terminators, which \<open>.\<close> does not match, are the line feed and the carriage return.
\<close>

definition isWhiteSpace :: "char \<Rightarrow> bool" where
  "isWhiteSpace c =
     (c \<in> set [CHR 0x09, CHR 0x0A, CHR 0x0B, CHR 0x0C, CHR 0x0D, CHR 0x20, CHR 0xA0])"

definition isLineTerminator :: "char \<Rightarrow> bool" where
  "isLineTerminator c = (c = CHR 0x0A \<or> c = CHR 0x0D)"

text \<open>
  \<open>text.replace(pattern, replacement)\<close> with a string pattern replaces the first
  occurrence only. \<open>splitAtFirst\<close> finds it and returns the text before and after it.
\<close>

fun splitAtFirst :: "string \<Rightarrow> string \<Rightarrow> (string \<times> string) option" where
  "splitAtFirst pat [] = (if pat = [] then Some ([], []) else None)"
| "splitAtFirst pat (c # cs) =
     (if prefix pat (c # cs) then Some ([], drop (length pat) (c # cs))
      else (case splitAtFirst pat cs of
              None \<Rightarrow> None
            | Some (pre, post) \<Rightarrow> Some (c # pre, post)))"

text \<open>
  The replacement string is not inserted literally: \<open>GetSubstitution\<close> of the language
  expands \<open>$$\<close> to \<open>$\<close>, \<open>$&\<close> to the matched text, \<open>$`\<close> to the text before the
  match and \<open>$'\<close> to the text after it. A string pattern has no capture groups, so every
  other \<open>$\<close> stays as it is.
\<close>

fun getSubstitution :: "string \<Rightarrow> string \<Rightarrow> string \<Rightarrow> string \<Rightarrow> string" where
  "getSubstitution matched pre post [] = []"
| "getSubstitution matched pre post [c] = [c]"
| "getSubstitution matched pre post (c # d # ds) =
     (if c = CHR ''$'' \<and> d = CHR ''$'' then CHR ''$'' # getSubstitution matched pre post ds
      else if c = CHR ''$'' \<and> d = CHR ''&'' then matched @ getSubstitution matched pre post ds
      else if c = CHR ''$'' \<and> d = CHR 0x60 then pre @ getSubstitution matched pre post ds
      else if c = CHR ''$'' \<and> d = CHR 0x27 then post @ getSubstitution matched pre post ds
      else c # getSubstitution matched pre post (d # ds))"

definition jsReplace :: "string \<Rightarrow> string \<Rightarrow> string \<Rightarrow> string" where
  "jsReplace text pat replacement =
     (case splitAtFirst pat text of
        None \<Rightarrow> text
      | Some (pre, post) \<Rightarrow> pre @ getSubstitution pat pre post replacement @ post)"

text \<open>\<open>parts.join(sep)\<close>.\<close>

fun joinWith :: "string \<Rightarrow> string list \<Rightarrow> string" where
  "joinWith sep [] = []"
| "joinWith sep [x] = x"
| "joinWith sep (x # y # ys) = x @ sep @ joinWith sep (y # ys)"

section \<open>Template rendering (src/unnamed/part_002, generateTemplateString)\<close>

text \<open>
  Modelled from the spec: constants.js is not under src/. \<open>VALID_CONTEXTS\<close> is the fixed
  set of placeholder names of the template contract, \<open>itemName\<close>, \<open>albumName\<close> and
  \<open>artistName\<close>; they are also the keys of \<open>contextMap\<close> in the code.
\<close>

definition VALID_CONTEXTS :: "string list" where
  "VALID_CONTEXTS = [''itemName'', ''albumName'', ''artistName'']"

text \<open>
  The regular expression \<open>/(?<=\{).+?(?=\})/g\<close>. \<open>lazyMatch s\<close> is the match of
  \<open>.+?(?=\})\<close> at the start of \<open>s\<close>: the shortest non-empty run of characters other than
  line terminators that is followed by \<open>}\<close>, with the rest of the text behind it.
\<close>

fun lazyMatch :: "string \<Rightarrow> (string \<times> string) option" where
  "lazyMatch [] = None"
| "lazyMatch [c] = None"
| "lazyMatch (c # d # ds) =
     (if isLineTerminator c then None
      else if d = CHR ''}'' then Some ([c], d # ds)
      else (case lazyMatch (d # ds) of
              None \<Rightarrow> None
            | Some (m, rest) \<Rightarrow> Some (c # m, rest)))"

text \<open>
  \<open>format.match(...)\<close> with the \<open>g\<close> flag: all matches from left to right, the search
  going on where the last match ended. \<open>prev\<close> is the character before the current
  position, which the lookbehind \<open>(?<=\{)\<close> reads. The recursion is on the number of
  characters left: \<open>fuel\<close> is never exhausted when it starts at the length of the text.
\<close>

fun matchContexts :: "nat \<Rightarrow> char option \<Rightarrow> string \<Rightarrow> string list" where
  "matchContexts 0 prev s = []"
| "matchContexts (Suc fuel) prev [] = []"
| "matchContexts (Suc fuel) prev (c # cs) =
     (if prev = Some (CHR ''{'') then
        (case lazyMatch (c # cs) of
           Some (m, rest) \<Rightarrow> m # matchContexts fuel (Some (last m)) rest
         | None \<Rightarrow> matchContexts fuel (Some c) cs)
      else matchContexts fuel (Some c) cs)"

definition contextsOf :: "string \<Rightarrow> string list" where
  "contextsOf format = matchContexts (length format) None format"

text \<open>\<open>contextMap[context]\<close>, with \<open>name || ''\<close> for each of the three values.\<close>

definition contextMap :: "string \<Rightarrow> string \<Rightarrow> string \<Rightarrow> string \<Rightarrow> string option" where
  "contextMap itemName albumName artistName context =
     (if context = ''itemName'' then Some itemName
      else if context = ''albumName'' then Some albumName
      else if context = ''artistName'' then Some artistName
      else None)"

text \<open>
  \<open>generateTemplateString\<close>: an empty format renders the empty string, a format without
  placeholders renders itself, a placeholder outside \<open>VALID_CONTEXTS\<close> throws, and
  otherwise each placeholder in turn replaces the first \<open>{context}\<close> of the running
  result (an absent value of \<open>contextMap\<close> would print as \<open>undefined\<close>).
\<close>

definition generateTemplateString ::
  "string \<Rightarrow> string \<Rightarrow> string \<Rightarrow> string \<Rightarrow> js_error + string" where
  "generateTemplateString itemName albumName artistName format =
     (if format = [] then Inr []
      else
        let contexts = contextsOf format in
        if contexts = [] then Inr format
        else
          let invalidContexts = filter (\<lambda>context. context \<notin> set VALID_CONTEXTS) contexts in
          if invalidContexts \<noteq> [] then
            Inl (Error (''Invalid template contexts: '' @ joinWith '', '' invalidContexts @
                        ''. Valid contexts are: '' @ joinWith '', '' VALID_CONTEXTS))
          else
            Inr (foldl (\<lambda>result context.
                     jsReplace result (''{'' @ context @ ''}'')
                       (case contextMap itemName albumName artistName context of
                          Some v \<Rightarrow> v
                        | None \<Rightarrow> ''undefined''))
                   format contexts))"

section \<open>Source ranker (src/util/get-link.js)\<close>

text \<open>A candidate as the search provider returns it; \<open>seconds\<close> may be missing.\<close>

record video =
  url :: string
  title :: string
  description :: string
  seconds :: "int option"

text \<open>
  The constants of constants.js that the ranker reads, taken as parameters:
  \<open>YOUTUBE_SEARCH.MAX_MINUTES\<close> and the values of \<open>INPUT_TYPES.SONG\<close>.
\<close>

record rankerConstants =
  MAX_MINUTES :: int
  songTypes :: "string list"

text \<open>
  The search provider: it rejects, or resolves with nothing usable
  (\<open>!result || !result.videos\<close>), or with the list of videos.
\<close>

type_synonym searchProvider = "string \<Rightarrow> js_error + video list option"

text \<open>The callback of the first \<open>filter\<close>.\<close>

definition passesExclusion :: "string list \<Rightarrow> video \<Rightarrow> bool" where
  "passesExclusion exclusionFilters v =
     (if exclusionFilters = [] then True
      else
        let titleMatch = list_ex (\<lambda>f. jsIncludes (toLowerCase (title v)) (toLowerCase f)) exclusionFilters;
            descMatch = list_ex (\<lambda>f. jsIncludes (toLowerCase (description v)) (toLowerCase f)) exclusionFilters
        in \<not> titleMatch \<and> \<not> descMatch)"

text \<open>The callback of the second \<open>filter\<close>.\<close>

definition passesDuration :: "rankerConstants \<Rightarrow> bool \<Rightarrow> video \<Rightarrow> bool" where
  "passesDuration cfg isSong v =
     (case seconds v of
        None \<Rightarrow> False
      | Some s \<Rightarrow> if s \<le> 0 then False else (\<not> isSong \<or> s < MAX_MINUTES cfg * 60))"

text \<open>The callback of \<open>map\<close>.\<close>

definition toUrl :: "video \<Rightarrow> string" where
  "toUrl v = (if prefix ''https://youtube.com'' (url v) then url v else ''https://youtube.com'' @ url v)"

text \<open>
  \<open>findLinks\<close>: empty search terms give no links without a search; a rejected search is
  caught and gives no links.
\<close>

definition findLinks ::
  "searchProvider \<Rightarrow> rankerConstants \<Rightarrow> string \<Rightarrow> string \<Rightarrow> string list \<Rightarrow> string list" where
  "findLinks search cfg searchTerms type exclusionFilters =
     (if searchTerms = [] then []
      else
        (case search searchTerms of
           Inl error \<Rightarrow> []
         | Inr None \<Rightarrow> []
         | Inr (Some videos) \<Rightarrow>
             (let isSong = (type \<in> set (songTypes cfg)) in
              map toUrl
                (take 10
                  (filter (passesDuration cfg isSong)
                    (filter (passesExclusion exclusionFilters) videos))))))"



text \<open>The parameters of \<open>getLinks\<close>; an absent string is the empty string.\<close>

record linkParams =
  itemName :: string
  albumName :: string
  artistName :: string
  extraSearch :: string
  searchFormat :: string
  itemType :: string
  exclusionFilters :: "string list"

datatype searchTier = CustomTier | AlbumTier | ArtistTier

text \<open>
  \<open>getLinks\<close>, returning with the links the calls of \<open>findLinks\<close> it made, each with its
  tier and search terms, in order. \<open>similarity\<close> is \<open>StringSimilarity.compareTwoStrings\<close>
  of the string-similarity package, a parameter here.
\<close>

definition getLinks ::
  "searchProvider \<Rightarrow> rankerConstants \<Rightarrow> (string \<Rightarrow> string \<Rightarrow> rat) \<Rightarrow> linkParams \<Rightarrow>
   (searchTier \<times> string) list \<times> string list" where
  "getLinks search cfg similarity p =
     (if itemName p = [] then ([], [])
      else
        let (calls1, links1) =
              (if searchFormat p \<noteq> [] then
                 (case generateTemplateString (itemName p) (albumName p) (artistName p) (searchFormat p) of
                    Inl error \<Rightarrow> ([], [])
                  | Inr customSearch \<Rightarrow>
                      ([(CustomTier, customSearch)],
                       findLinks search cfg customSearch (itemType p) (exclusionFilters p)))
               else ([], []))
        in
        if links1 \<noteq> [] then (calls1, links1)
        else
          let extraSearchTerm = (if extraSearch p \<noteq> [] then '' '' @ extraSearch p else []);
              (calls2, links2) =
                (if similarity (itemName p) (albumName p) < 1 / 2 \<and> albumName p \<noteq> [] then
                   (calls1 @ [(AlbumTier, albumName p @ '' - '' @ itemName p @ extraSearchTerm)],
                    findLinks search cfg (albumName p @ '' - '' @ itemName p @ extraSearchTerm)
                      (itemType p) (exclusionFilters p))
                 else (calls1, links1))
          in
          if links2 = [] \<and> artistName p \<noteq> [] then
            (calls2 @ [(ArtistTier, artistName p @ '' - '' @ itemName p @ extraSearchTerm)],
             findLinks search cfg (artistName p @ '' - '' @ itemName p @ extraSearchTerm)
               (itemType p) (exclusionFilters p))
          else (calls2, links2))"

text \<open>
  Modelled from the spec: the string-similarity package is a dependency and not under
  src/. It is the Dice coefficient over character bigrams: white space is removed, equal
  strings score 1, a string shorter than two characters scores 0, and otherwise the score
  is twice the number of bigrams of the second string that can be paired with a bigram of
  the first, divided by the total number of bigrams.
\<close>

definition bigrams :: "string \<Rightarrow> (char \<times> char) list" where
  "bigrams s = zip s (tl s)"

fun intersectionSize :: "(char \<times> char) list \<Rightarrow> (char \<times> char) list \<Rightarrow> nat" where
  "intersectionSize firstBigrams [] = 0"
| "intersectionSize firstBigrams (b # bs) =
     (if b \<in> set firstBigrams then Suc (intersectionSize (remove1 b firstBigrams) bs)
      else intersectionSize firstBigrams bs)"

definition compareTwoStrings :: "string \<Rightarrow> string \<Rightarrow> rat" where
  "compareTwoStrings a b =
     (let first = filter (\<lambda>c. \<not> isWhiteSpace c) a;
          second = filter (\<lambda>c. \<not> isWhiteSpace c) b
      in if first = second then 1
         else if length first < 2 \<or> length second < 2 then 0
         else 2 * of_nat (intersectionSize (bigrams first) (bigrams second)) /
              of_nat (length first + length second - 2))"

text \<open>A search provider and constants to run the ranker on.\<close>

definition sampleSearch :: searchProvider where
  "sampleSearch q =
     Inr (Some [\<lparr>url = ''/watch?v=live'', title = ''Halo (LIVE)'', description = [], seconds = Some 200\<rparr>,
                \<lparr>url = ''/watch?v=none'', title = ''Halo'', description = [], seconds = None\<rparr>,
                \<lparr>url = ''https://youtube.com/watch?v=ok'', title = ''Halo'', description = ''official'', seconds = Some 261\<rparr>,
                \<lparr>url = ''/watch?v=long'', title = ''Halo 10 hours'', description = [], seconds = Some 36000\<rparr>])"


definition sampleConsts :: rankerConstants where
  "sampleConsts = \<lparr>MAX_MINUTES = 15, songTypes = [''song'', ''playlist'', ''album'', ''artist'']\<rparr>"

text \<open>The parts of \<open>getLinks\<close>, named to state what each tier does.\<close>

definition ranCustom :: "linkParams \<Rightarrow> bool" where
  "ranCustom p = (itemName p \<noteq> [] \<and> searchFormat p \<noteq> [] \<and>
      \<not> isl (generateTemplateString (itemName p) (albumName p) (artistName p) (searchFormat p)))"

definition customLinks :: "searchProvider \<Rightarrow> rankerConstants \<Rightarrow> linkParams \<Rightarrow> string list" where
  "customLinks search cfg p =
     (if searchFormat p \<noteq> [] then
        (case generateTemplateString (itemName p) (albumName p) (artistName p) (searchFormat p) of
           Inl error \<Rightarrow> []
         | Inr customSearch \<Rightarrow> findLinks search cfg customSearch (itemType p) (exclusionFilters p))
      else [])"

definition extraTerm :: "linkParams \<Rightarrow> string" where
  "extraTerm p = (if extraSearch p \<noteq> [] then '' '' @ extraSearch p else [])"

definition albumQuery :: "linkParams \<Rightarrow> string" where
  "albumQuery p = albumName p @ '' - '' @ itemName p @ extraTerm p"

definition artistQuery :: "linkParams \<Rightarrow> string" where
  "artistQuery p = artistName p @ '' - '' @ itemName p @ extraTerm p"

definition albumLinks ::
  "searchProvider \<Rightarrow> rankerConstants \<Rightarrow> (string \<Rightarrow> string \<Rightarrow> rat) \<Rightarrow> linkParams \<Rightarrow> string list" where
  "albumLinks search cfg sim p =
     (if sim (itemName p) (albumName p) < 1 / 2 \<and> albumName p \<noteq> [] then
        findLinks search cfg (albumQuery p) (itemType p) (exclusionFilters p)
      else [])"

section \<open>Acquisition engine (src/lib/downloader.js)\<close>

text \<open>
  The collaborators of the downloader. \<open>videoIdOf link\<close> is
  \<open>new URLSearchParams(new URL(link).search).get('v')\<close>: the constructor \<open>URL\<close> throws
  a \<open>TypeError\<close> when \<open>link\<close> does not parse as an absolute URL, and \<open>get\<close> returns
  \<open>null\<close> when there is no parameter \<open>v\<close>. \<open>getSegments\<close> is the segment provider,
  which rejects or resolves with segments. \<open>transcode\<close> is the promise around the
  stream fetch and the transcoder for the try with a given number, link, filter and output
  path: it resolves (\<open>None\<close>) or rejects. \<open>showTime\<close> prints a number inside a template
  literal and \<open>ASET\<close> is the constant of constants.js.
\<close>

record downloadEnv =
  videoIdOf :: "string \<Rightarrow> js_error + string option"
  getSegments :: "string \<Rightarrow> js_error + segment list"
  transcode :: "nat \<Rightarrow> string \<Rightarrow> string option \<Rightarrow> string \<Rightarrow> js_error option"
  showTime :: "rat \<Rightarrow> string"
  ASET :: string

text \<open>
  The lines of the filter graph: one \<open>atrim\<close> per kept stretch before each skipped
  segment, one after the last, and the \<open>concat\<close> of all labels.
\<close>

definition trimLine :: "downloadEnv \<Rightarrow> segment list \<Rightarrow> nat \<Rightarrow> string" where
  "trimLine env segments i =
     ''[0:a]atrim=start='' @ showTime env (if i = 0 then 0 else endTime (segments ! (i - 1))) @
     '':end='' @ showTime env (startTime (segments ! i)) @ '','' @ ASET env @
     ''['' @ decimal i @ ''a];''"

definition buildFilter :: "downloadEnv \<Rightarrow> segment list \<Rightarrow> string" where
  "buildFilter env segments =
     joinWith [CHR 0x0A]
       (map (trimLine env segments) [0 ..< length segments] @
        [''[0:a]atrim=start='' @ showTime env (endTime (last segments)) @ '','' @ ASET env @
           ''['' @ decimal (length segments) @ ''a];'',
         concat (map (\<lambda>i. ''['' @ decimal i @ ''a]'') [0 ..< length segments + 1]) @
           ''concat=n='' @ decimal (length segments + 1) @ '':v=0:a=1[outa]''])"

text \<open>
  \<open>sponsorComplexFilter\<close>: the URL is parsed outside the \<open>try\<close>, so that error leaves
  the function; a missing or empty video id, an error of the provider and an empty
  merged list all return \<open>null\<close>.
\<close>

definition sponsorComplexFilter :: "downloadEnv \<Rightarrow> string \<Rightarrow> js_error + string option" where
  "sponsorComplexFilter env link =
     (case videoIdOf env link of
        Inl typeError \<Rightarrow> Inl typeError
      | Inr None \<Rightarrow> Inr None
      | Inr (Some videoID) \<Rightarrow>
          if videoID = [] then Inr None
          else
            (case getSegments env videoID of
               Inl error \<Rightarrow> Inr None
             | Inr raw \<Rightarrow>
                 (let segments = mergeSegments raw in
                  if segments = [] then Inr None else Inr (Some (buildFilter env segments)))))"

text \<open>One pass of the loop of \<open>downloader\<close> that reached the transcoder.\<close>

record attempt =
  attemptCount :: nat
  attemptLink :: string
  attemptFilter :: "string option"
  attemptError :: "js_error option"

text \<open>
  The \<open>while (attemptCount < youtubeLinks.length && !downloadSuccess)\<close> loop.
  \<open>sponsorComplexFilter\<close> is awaited outside the \<open>try\<close>; the promise of the
  transcoder is awaited inside it, and its rejection increments \<open>attemptCount\<close>.
\<close>

function downloader_loop ::
  "downloadEnv \<Rightarrow> string list \<Rightarrow> string \<Rightarrow> nat \<Rightarrow> attempt list \<Rightarrow> attempt list \<times> (js_error + bool)"
where
  "downloader_loop env youtubeLinks outFile count trace =
     (if count < length youtubeLinks then
        (let link = youtubeLinks ! count in
         case sponsorComplexFilter env link of
           Inl typeError \<Rightarrow> (trace, Inl typeError)
         | Inr complexFilter \<Rightarrow>
             (case transcode env count link complexFilter outFile of
                None \<Rightarrow>
                  (trace @ [\<lparr>attemptCount = count, attemptLink = link,
                              attemptFilter = complexFilter, attemptError = None\<rparr>], Inr True)
              | Some error \<Rightarrow>
                  downloader_loop env youtubeLinks outFile (count + 1)
                    (trace @ [\<lparr>attemptCount = count, attemptLink = link,
                                attemptFilter = complexFilter, attemptError = Some error\<rparr>])))
      else (trace, Inr False))"
  by pat_completeness auto
termination
  by (relation "measure (\<lambda>(env, links, outFile, count, trace). length links - count)") auto

declare downloader_loop.simps [simp del]

definition downloader :: "downloadEnv \<Rightarrow> string list \<Rightarrow> string \<Rightarrow> attempt list \<times> (js_error + bool)" where
  "downloader env youtubeLinks outFile =
     (if youtubeLinks = [] then ([], Inr False)
      else downloader_loop env youtubeLinks outFile 0 [])"

definition failedAttempt :: "attempt \<Rightarrow> bool" where
  "failedAttempt a = (attemptError a \<noteq> None)"

text \<open>Every attempt used the filter and the outcome the collaborators gave for it.\<close>

definition faithfulAttempt :: "downloadEnv \<Rightarrow> string \<Rightarrow> attempt \<Rightarrow> bool" where
  "faithfulAttempt env outFile a =
     (sponsorComplexFilter env (attemptLink a) = Inr (attemptFilter a) \<and>
      attemptError a = transcode env (attemptCount a) (attemptLink a) (attemptFilter a) outFile)"

text \<open>
  Two worlds to run the downloader in: one where the first two candidates fail in the
  transcoder and the provider fails for the second, and one with a candidate that is not
  an absolute URL.
\<close>

definition thirdSucceeds :: downloadEnv where
  "thirdSucceeds =
     \<lparr>videoIdOf = (\<lambda>link. Inr (Some (drop 28 link))),
      getSegments = (\<lambda>v. if v = ''b'' then Inl (Error ''404'') else Inr []),
      transcode = (\<lambda>n link f out. if link = ''https://youtube.com/watch?v=c'' then None
                                   else Some (Error ''ffmpeg exited with code 1'')),
      showTime = (\<lambda>t. ''0''), ASET = ''asetpts=PTS-STARTPTS''\<rparr>"

definition noScheme :: downloadEnv where
  "noScheme =
     \<lparr>videoIdOf = (\<lambda>link. if prefix ''https://'' link then Inr (Some ''abc'')
                          else Inl (Error ''Invalid URL'')),
      getSegments = (\<lambda>v. Inr []),
      transcode = (\<lambda>n link f out. None),
      showTime = (\<lambda>t. ''0''), ASET = ''asetpts=PTS-STARTPTS''\<rparr>"

text \<open>The invariant of the loop of \<open>downloader\<close> and what holds when it ends.\<close>

definition loopInv :: "downloadEnv \<Rightarrow> string list \<Rightarrow> string \<Rightarrow> nat \<Rightarrow> attempt list \<Rightarrow> bool" where
  "loopInv env links outFile count trace =
     (length trace = count \<and> count \<le> length links \<and>
      map attemptLink trace = take count links \<and>
      list_all failedAttempt trace \<and>
      list_all (faithfulAttempt env outFile) trace)"

definition loopPost ::
  "downloadEnv \<Rightarrow> string list \<Rightarrow> string \<Rightarrow> attempt list \<Rightarrow> js_error + bool \<Rightarrow> bool" where
  "loopPost env links outFile trace res =
     (map attemptLink trace = take (length trace) links \<and>
      length trace \<le> length links \<and>
      list_all failedAttempt (butlast trace) \<and>
      list_all (faithfulAttempt env outFile) trace \<and>
      (res = Inr True \<longleftrightarrow> trace \<noteq> [] \<and> attemptError (last trace) = None) \<and>
      (res = Inr False \<longrightarrow> length trace = length links \<and> list_all failedAttempt trace) \<and>
      (\<forall>e. res = Inl e \<longrightarrow> length trace < length links \<and> list_all failedAttempt trace \<and>
            sponsorComplexFilter env (links ! length trace) = Inl e))"

section \<open>Metadata tagger (src/lib/metadata.js, mergeMetadata)\<close>

text \<open>
  The files the tagger sees: which paths exist, and the tag set last written into a file.
\<close>

record tagWorld =
  fileExists :: "string \<Rightarrow> bool"
  tagsOf :: "string \<Rightarrow> (string \<times> string) list option"

text \<open>
  The collaborators, each of which may fail. \<open>downloadAndSaveCover\<close> answers the try with
  a given number with its error, if any, and with whether it wrote a file at the target
  path; \<open>copyFileSync\<close>, \<open>update\<close> of the tag library and \<open>unlinkSync\<close> succeed
  (\<open>None\<close>) or throw. \<open>GENERIC_IMAGE\<close> is the constant of constants.js.
\<close>

record fetchOutcome =
  fetchError :: "js_error option"
  fileWritten :: bool

record tagEnv =
  downloadAndSaveCover :: "nat \<Rightarrow> string \<Rightarrow> string \<Rightarrow> fetchOutcome"
  copyFileSync :: "string \<Rightarrow> string \<Rightarrow> js_error option"
  nodeID3update :: "(string \<times> string) list \<Rightarrow> string \<Rightarrow> js_error option"
  unlinkSync :: "string \<Rightarrow> js_error option"
  GENERIC_IMAGE :: string

datatype tagEvent =
    FetchCover nat "js_error option"
  | CopyGeneric "js_error option"
  | UpdateTags "(string \<times> string) list" "js_error option"
  | Unlink "js_error option"








text \<open>
  The tag set, as a list of frame names and values. Of the frames the code builds, the
  artist, album and title frames, the embedded picture \<open>APIC\<close> (present only when the
  cover file exists) and the lyrics are kept; the date, track number, tempo and rating
  frames depend on no file and are left out.
\<close>

definition buildMetadata :: "item \<Rightarrow> string option \<Rightarrow> (string \<times> string) list" where
  "buildMetadata songData apic =
     [(''artist'', case artists songData of [] \<Rightarrow> [] | a # _ \<Rightarrow> a),
      (''albumArtist'', joinWith ''/'' (artists songData)),
      (''album'', album_name songData),
      (''title'', name songData)] @
     (case apic of None \<Rightarrow> [] | Some path \<Rightarrow> [(''APIC'', path)]) @
     (case lyrics songData of
        None \<Rightarrow> []
      | Some l \<Rightarrow> if l = [] then [] else [(''unsynchronisedLyrics'', l)])"

text \<open>\<open>try { NodeID3.update(metadata, output) } catch { log }\<close>.\<close>

definition tagPhase :: "tagEnv \<Rightarrow> string \<Rightarrow> string \<Rightarrow> item \<Rightarrow> tagWorld \<Rightarrow> tagEvent list \<times> tagWorld" where
  "tagPhase env outFile coverFileName songData w =
     (let metadata = buildMetadata songData
                       (if fileExists w coverFileName then Some coverFileName else None)
      in case nodeID3update env metadata outFile of
           None \<Rightarrow> ([UpdateTags metadata None], w\<lparr>tagsOf := (tagsOf w)(outFile := Some metadata)\<rparr>)
         | Some error \<Rightarrow> ([UpdateTags metadata (Some error)], w))"



definition isFetch :: "tagEvent \<Rightarrow> bool" where
  "isFetch e = (case e of FetchCover _ _ \<Rightarrow> True | _ \<Rightarrow> False)"





definition halo :: item where
  "halo = \<lparr>itemId = ''4JehYebiI9JE8sR8MisGVb'', name = ''Halo'', album_name = ''I Am... Sasha Fierce'',
           artists = [''Beyonce''], cover_url = Some ''https://i.scdn.co/image/halo'', URL = None,
           lyrics = None, cached = None, failed = None\<rparr>"



section \<open>Dedup cache (src/unnamed/part_001)\<close>

text \<open>
  \<open>s.split(sep)\<close>: an empty separator splits into characters, and the text without
  the separator is the single piece.
\<close>

function jsSplit :: "string \<Rightarrow> string \<Rightarrow> string list" where
  "jsSplit sep s =
     (if sep = [] then map (\<lambda>c. [c]) s
      else if s = [] then [[]]
      else if prefix sep s then [] # jsSplit sep (drop (length sep) s)
      else (case jsSplit sep (tl s) of
              l # ls \<Rightarrow> (hd s # l) # ls
            | [] \<Rightarrow> [[hd s]]))"
  by pat_completeness auto
termination
  by (relation "measure (\<lambda>(sep, s). length s)") auto

declare jsSplit.simps [simp del]

text \<open>\<open>s.trim()\<close>.\<close>

definition trim :: "string \<Rightarrow> string" where
  "trim s = rev (dropWhile isWhiteSpace (rev (dropWhile isWhiteSpace s)))"

text \<open>
  The files the cache sees: the content of every file that exists, and the directories
  that exist. The calls of the file system that may throw do so as \<open>fsFaults\<close> says,
  path by path.
\<close>

record cacheFs =
  contents :: "string \<Rightarrow> string option"
  dirExists :: "string \<Rightarrow> bool"

record fsFaults =
  mkdirFails :: "string \<Rightarrow> js_error option"
  appendFails :: "string \<Rightarrow> js_error option"
  readFails :: "string \<Rightarrow> js_error option"

text \<open>
  The command-line options the orchestrator and the cache read, with the functions of
  the path library they are combined with: \<open>pathJoin\<close> is \<open>path.join\<close> of two parts,
  \<open>joinOutput\<close> is \<open>path.join(path.normalize(output), ...segments)\<close>, \<open>dirname\<close> is
  \<open>path.dirname\<close> and \<open>resolvePath\<close> is \<open>path.resolve\<close>.
\<close>

record cliConfig =
  cacheFile :: string
  cliExtraSearch :: string
  cliSearchFormat :: string
  cliExclusionFilters :: "string list"
  outputOnly :: bool
  downloadLyrics :: bool
  outputFormat :: string
  outputFileType :: string
  pathJoin :: "string \<Rightarrow> string \<Rightarrow> string"
  joinOutput :: "string list \<Rightarrow> string"
  dirname :: "string \<Rightarrow> string"
  resolvePath :: "string \<Rightarrow> string"

definition existsSync :: "cacheFs \<Rightarrow> string \<Rightarrow> bool" where
  "existsSync fs path = (contents fs path \<noteq> None \<or> dirExists fs path)"

text \<open>\<open>fs.mkdirSync(dir, { recursive: true })\<close>.\<close>

definition mkdirSync :: "fsFaults \<Rightarrow> cacheFs \<Rightarrow> string \<Rightarrow> js_error + cacheFs" where
  "mkdirSync faults fs dir =
     (case mkdirFails faults dir of
        Some error \<Rightarrow> Inl error
      | None \<Rightarrow> Inr (fs\<lparr>dirExists := (dirExists fs)(dir := True)\<rparr>))"

text \<open>\<open>fs.appendFileSync(file, text)\<close> creates the file when it is absent.\<close>

definition appendFileSync :: "fsFaults \<Rightarrow> cacheFs \<Rightarrow> string \<Rightarrow> string \<Rightarrow> js_error + cacheFs" where
  "appendFileSync faults fs file txt =
     (case appendFails faults file of
        Some error \<Rightarrow> Inl error
      | None \<Rightarrow>
          Inr (fs\<lparr>contents := (contents fs)
                   (file := Some ((case contents fs file of None \<Rightarrow> [] | Some old \<Rightarrow> old) @ txt))\<rparr>))"

text \<open>\<open>fs.readFileSync(file)\<close> throws on a fault and on a path that is not a file.\<close>

definition readFileSync :: "fsFaults \<Rightarrow> cacheFs \<Rightarrow> string \<Rightarrow> js_error + string" where
  "readFileSync faults fs file =
     (case readFails faults file of
        Some error \<Rightarrow> Inl error
      | None \<Rightarrow> (case contents fs file of
                   None \<Rightarrow> Inl (Error ''EISDIR: illegal operation on a directory, read'')
                 | Some c \<Rightarrow> Inr c))"

definition getCacheFile :: "cliConfig \<Rightarrow> string \<Rightarrow> string" where
  "getCacheFile cfg dir =
     (if prefix ''.'' (cacheFile cfg) then pathJoin cfg dir (cacheFile cfg) else cacheFile cfg)"

text \<open>
  \<open>writeId\<close>: nothing for an empty directory or id; otherwise the directory of the cache
  file is created when it does not exist and the line is appended. An error of either
  call is caught and logged: the files are then as the failed call left them.
\<close>

definition writeId :: "fsFaults \<Rightarrow> cliConfig \<Rightarrow> cacheFs \<Rightarrow> string \<Rightarrow> string \<Rightarrow> cacheFs" where
  "writeId faults cfg fs dir ident =
     (if dir = [] \<or> ident = [] then fs
      else
        let cacheFileName = getCacheFile cfg dir;
            cacheDir = dirname cfg cacheFileName
        in case (if \<not> existsSync fs cacheDir then mkdirSync faults fs cacheDir else Inr fs) of
             Inl error \<Rightarrow> fs
           | Inr fs1 \<Rightarrow>
               (case appendFileSync faults fs1 cacheFileName (''spotify '' @ ident @ [CHR 0x0A]) of
                  Inl error \<Rightarrow> fs1
                | Inr fs2 \<Rightarrow> fs2))"

text \<open>The ids a cache file holds: its lines without \<open>spotify \<close>, trimmed, the empty ones dropped.\<close>

definition cachedIds :: "string \<Rightarrow> string list" where
  "cachedIds cacheContent =
     filter (\<lambda>line. line \<noteq> [])
       (map (\<lambda>line. trim (jsReplace line ''spotify '' [])) (jsSplit [CHR 0x0A] cacheContent))"

text \<open>
  \<open>findId\<close>: false for an empty id or directory, for a cache file that does not exist
  and for every error while reading it.
\<close>

definition findId :: "fsFaults \<Rightarrow> cliConfig \<Rightarrow> cacheFs \<Rightarrow> string \<Rightarrow> string \<Rightarrow> bool" where
  "findId faults cfg fs ident dir =
     (if ident = [] \<or> dir = [] then False
      else
        let cacheFileName = getCacheFile cfg dir in
        if \<not> existsSync fs cacheFileName then False
        else (case readFileSync faults fs cacheFileName of
                Inl error \<Rightarrow> False
              | Inr cacheContent \<Rightarrow> ident \<in> set (cachedIds cacheContent)))"

text \<open>
  An id that survives the way the cache reads its lines: no line break inside, no white
  space at either end. A cache file whose last line is terminated, as every file that
  only \<open>writeId\<close> wrote is.
\<close>

definition plainId :: "string \<Rightarrow> bool" where
  "plainId ident =
     (ident \<noteq> [] \<and> CHR 0x0A \<notin> set ident \<and> \<not> isWhiteSpace (hd ident) \<and> \<not> isWhiteSpace (last ident))"

definition terminated :: "string \<Rightarrow> bool" where
  "terminated c = (c = [] \<or> last c = CHR 0x0A)"


definition noFaults :: fsFaults where
  "noFaults = \<lparr>mkdirFails = (\<lambda>p. None), appendFails = (\<lambda>p. None), readFails = (\<lambda>p. None)\<rparr>"

text \<open>A configuration with the default cache file name and simple path functions.\<close>

definition defaultConfig :: cliConfig where
  "defaultConfig =
     \<lparr>cacheFile = ''.spdlcache'', cliExtraSearch = [], cliSearchFormat = [],
      cliExclusionFilters = [], outputOnly = False, downloadLyrics = False,
      outputFormat = ''{artistName}___{albumName}___{itemName}'', outputFileType = ''mp3'',
      pathJoin = (\<lambda>d f. d @ ''/'' @ f),
      joinOutput = (\<lambda>segments. joinWith ''/'' (''/music'' # segments)),
      dirname = (\<lambda>p. rev (tl (dropWhile (\<lambda>c. c \<noteq> CHR ''/'') (rev p)))),
      resolvePath = (\<lambda>p. p)\<rparr>"

definition emptyFs :: cacheFs where
  "emptyFs = \<lparr>contents = (\<lambda>p. None), dirExists = (\<lambda>p. False)\<rparr>"

section \<open>Batch orchestrator (src/unnamed/part_003, downloadList)\<close>















definition settled :: "item \<Rightarrow> bool" where
  "settled it = (cached it = Some True \<or> failed it = Some False)"









section \<open>Theorems\<close>

lemma mergeStep_snoc:
  "mergeStep (ys @ [y]) seg =
     (if endTime y > startTime seg
      then ys @ [y\<lparr>endTime := max (endTime seg) (endTime y)\<rparr>]
      else ys @ [y, \<lparr>startTime = startTime seg, endTime = endTime seg\<rparr>])"
  by (simp add: mergeStep_def)

lemma mergeStep_Nil: "mergeStep [] seg = [\<lparr>startTime = startTime seg, endTime = endTime seg\<rparr>]"
  by (simp add: mergeStep_def)


subsection \<open>Interval merger\<close>

lemma points_merge:
  assumes "startTime y \<le> startTime seg" "startTime seg < endTime y"
  shows "points (y\<lparr>endTime := max (endTime seg) (endTime y)\<rparr>) = points y \<union> points seg"
  using assms by (auto simp: points_def max_def)

lemma covered_append: "covered (xs @ ys) = covered xs \<union> covered ys"
  by (auto simp: covered_def)

lemma covered_snoc: "covered (ys @ [y]) = covered ys \<union> points y"
  by (auto simp: covered_def)

lemma covered_Cons: "covered (x # xs) = points x \<union> covered xs"
  by (auto simp: covered_def)

lemma covered_Nil: "covered [] = {}"
  by (simp add: covered_def)

lemma points_mk: "points \<lparr>startTime = startTime seg, endTime = endTime seg\<rparr> = points seg"
  by (simp add: points_def)

lemma mergeStep_covered:
  assumes "acc \<noteq> [] \<longrightarrow> startTime (last acc) \<le> startTime seg"
  shows "covered (mergeStep acc seg) = covered acc \<union> points seg"
proof (cases acc rule: rev_cases)
  case Nil
  then show ?thesis by (simp add: mergeStep_Nil covered_Cons covered_Nil points_mk)
next
  case (snoc ys y)
  with assms have le: "startTime y \<le> startTime seg" by simp
  show ?thesis
  proof (cases "startTime seg < endTime y")
    case True
    then show ?thesis using snoc le
      by (simp add: mergeStep_snoc covered_snoc points_merge Un_assoc)
  next
    case False
    then show ?thesis using snoc
      by (simp add: mergeStep_snoc covered_append covered_Cons covered_Nil points_mk Un_assoc)
  qed
qed

lemma mergeStep_last_start:
  assumes "acc \<noteq> [] \<longrightarrow> startTime (last acc) \<le> startTime seg"
  shows "mergeStep acc seg \<noteq> [] \<and> startTime (last (mergeStep acc seg)) \<le> startTime seg"
  using assms by (cases acc rule: rev_cases) (auto simp: mergeStep_Nil mergeStep_snoc)

lemma mergeStep_chainOK:
  assumes "chainOK acc" "wellFormed seg"
  shows "chainOK (mergeStep acc seg)"
proof (cases acc rule: rev_cases)
  case Nil
  then show ?thesis using assms
    by (simp add: mergeStep_Nil chainOK_def nonOverlapping_def wellFormed_def)
next
  case (snoc ys y)
  from assms snoc have ys: "sorted_wrt (\<lambda>a b. endTime a \<le> startTime b) ys"
    and yb: "\<forall>a \<in> set ys. endTime a \<le> startTime y"
    and wy: "startTime y < endTime y" and wys: "\<forall>s \<in> set ys. wellFormed s"
    by (auto simp: chainOK_def nonOverlapping_def sorted_wrt_append wellFormed_def)
  show ?thesis
  proof (cases "startTime seg < endTime y")
    case True
    then show ?thesis using snoc ys yb wy wys assms(2)
      by (auto simp: mergeStep_snoc chainOK_def nonOverlapping_def sorted_wrt_append wellFormed_def max_def)
  next
    case False
    then have "\<forall>a \<in> set ys. endTime a \<le> startTime seg"
      using yb wy by fastforce
    then show ?thesis using False snoc ys yb wy wys assms(2)
      by (auto simp: mergeStep_snoc chainOK_def nonOverlapping_def sorted_wrt_append wellFormed_def)
  qed
qed

lemma foldl_mergeStep:
  assumes "sorted (map startTime xs)" "\<forall>s \<in> set xs. wellFormed s" "chainOK acc"
    "acc \<noteq> [] \<longrightarrow> (\<forall>x \<in> set xs. startTime (last acc) \<le> startTime x)"
  shows "chainOK (foldl mergeStep acc xs) \<and> covered (foldl mergeStep acc xs) = covered acc \<union> covered xs"
  using assms
proof (induction xs arbitrary: acc)
  case Nil
  then show ?case by (simp add: covered_Nil)
next
  case (Cons x xs)
  have pre: "acc \<noteq> [] \<longrightarrow> startTime (last acc) \<le> startTime x" using Cons.prems(4) by simp
  have c: "chainOK (mergeStep acc x)" using Cons.prems by (simp add: mergeStep_chainOK)
  have l: "mergeStep acc x \<noteq> [] \<and> startTime (last (mergeStep acc x)) \<le> startTime x"
    using pre by (rule mergeStep_last_start)
  have n: "mergeStep acc x \<noteq> [] \<longrightarrow> (\<forall>z \<in> set xs. startTime (last (mergeStep acc x)) \<le> startTime z)"
    using l Cons.prems(1) by fastforce
  have "chainOK (foldl mergeStep (mergeStep acc x) xs) \<and>
        covered (foldl mergeStep (mergeStep acc x) xs) = covered (mergeStep acc x) \<union> covered xs"
    using Cons.IH [OF _ _ c n] Cons.prems(1,2) by simp
  then show ?case using mergeStep_covered [OF pre]
    by (simp add: covered_Cons Un_assoc)
qed

lemma covered_sort: "covered (sort_key startTime segs) = covered segs"
  by (simp add: covered_def)

lemma chain_sorted:
  assumes "chainOK out" shows "sorted (map startTime out)"
  using assms
  by (induction out) (auto simp: chainOK_def nonOverlapping_def wellFormed_def sorted_wrt_append intro: order.trans less_imp_le)


text \<open>
  C1 (as amended). For every finite list of well-formed segments (start < end), the merger
  of the code (stable sort by start, then one pass that extends the last accepted
  interval's end to the maximum whenever the last accepted end is strictly greater than
  the current start) produces a list that is sorted ascending by start, whose intervals
  are well formed and pairwise non-overlapping (an earlier interval ends no later than a
  later one starts; two intervals may touch), and whose union as a set of points equals
  the union of the input intervals.
\<close>

theorem mergeSegments_sorted_disjoint_cover:
  assumes "\<forall>s \<in> set segs. wellFormed s"
  shows "sorted (map startTime (mergeSegments segs)) \<and>
         nonOverlapping (mergeSegments segs) \<and>
         (\<forall>s \<in> set (mergeSegments segs). wellFormed s) \<and>
         covered (mergeSegments segs) = covered segs"
proof -
  have "chainOK (foldl mergeStep [] (sort_key startTime segs)) \<and>
        covered (foldl mergeStep [] (sort_key startTime segs)) =
          covered [] \<union> covered (sort_key startTime segs)"
    by (rule foldl_mergeStep) (use assms in \<open>simp_all add: chainOK_def nonOverlapping_def\<close>)
  then show ?thesis using chain_sorted
    by (simp add: mergeSegments_def covered_Nil covered_sort chainOK_def)
qed

theorem mergeSegments_sorted_disjoint_cover_witness:
  "list_all wellFormed
     [\<lparr>startTime = 40, endTime = 50\<rparr>, \<lparr>startTime = 15, endTime = 25\<rparr>,
      \<lparr>startTime = 10, endTime = 20\<rparr>] \<and>
   mergeSegments
     [\<lparr>startTime = 40, endTime = 50\<rparr>, \<lparr>startTime = 15, endTime = 25\<rparr>,
      \<lparr>startTime = 10, endTime = 20\<rparr>] =
     [\<lparr>startTime = 10, endTime = 25\<rparr>, \<lparr>startTime = 40, endTime = 50\<rparr>] \<and>
   nonOverlapping
     (mergeSegments
       [\<lparr>startTime = 40, endTime = 50\<rparr>, \<lparr>startTime = 15, endTime = 25\<rparr>,
        \<lparr>startTime = 10, endTime = 20\<rparr>]) \<and>
   covered
     (mergeSegments
       [\<lparr>startTime = 40, endTime = 50\<rparr>, \<lparr>startTime = 15, endTime = 25\<rparr>,
        \<lparr>startTime = 10, endTime = 20\<rparr>]) =
   covered
     [\<lparr>startTime = 40, endTime = 50\<rparr>, \<lparr>startTime = 15, endTime = 25\<rparr>,
      \<lparr>startTime = 10, endTime = 20\<rparr>]"
proof -
  have h: "\<forall>s \<in> set [\<lparr>startTime = 40, endTime = 50\<rparr>, \<lparr>startTime = 15, endTime = 25\<rparr>,
      \<lparr>startTime = 10, endTime = (20::rat)\<rparr>]. wellFormed s"
    by (simp add: wellFormed_def)
  have e: "mergeSegments
     [\<lparr>startTime = 40, endTime = 50\<rparr>, \<lparr>startTime = 15, endTime = 25\<rparr>,
      \<lparr>startTime = 10, endTime = 20\<rparr>] =
     [\<lparr>startTime = 10, endTime = 25\<rparr>, \<lparr>startTime = 40, endTime = 50\<rparr>]"
    by (simp add: mergeSegments_def mergeStep_def)
  from mergeSegments_sorted_disjoint_cover [OF h] e show ?thesis
    by (simp add: wellFormed_def)
qed

text \<open>
  C1 as stated fails: the code merges only when \<open>previousSegment.endTime > startTime\<close>,
  so the touching intervals (10,20) and (20,30) are both kept and the output is not
  non-adjacent.
\<close>

theorem mergeSegments_touching_not_coalesced:
  "mergeSegments [\<lparr>startTime = 10, endTime = 20\<rparr>, \<lparr>startTime = 20, endTime = 30\<rparr>] =
     [\<lparr>startTime = 10, endTime = 20\<rparr>, \<lparr>startTime = 20, endTime = 30\<rparr>] \<and>
   \<not> nonAdjacent
     (mergeSegments [\<lparr>startTime = 10, endTime = 20\<rparr>, \<lparr>startTime = 20, endTime = 30\<rparr>])"
  by (simp add: mergeSegments_def mergeStep_def nonAdjacent_def)

subsection \<open>End-of-run report\<close>

lemma length_filter_split:
  "int (length xs) - int (length (filter P xs)) = int (length (filter (\<lambda>x. \<not> P x) xs))"
  using sum_length_filter_compl [of P xs] by simp

text \<open>
  C10. For every list in the end-of-run report, the reported success count equals the
  list's total item count minus the number of items whose failed flag is set; it is the
  number of items whose failed flag is not \<open>true\<close>, so an item skipped through the dedup
  cache (cached set, failed never set) and an item carrying neither flag are counted as
  successes, and a list whose items all came from the cache reports every item
  successful.
\<close>

theorem generateReport_successCount:
  "length (generateReport ls) = length ls \<and>
   (\<forall>k < length ls.
      totalItems (generateReport ls ! k) = length (items (ls ! k)) \<and>
      successCount (generateReport ls ! k) =
        int (length (items (ls ! k))) - int (length (filter (\<lambda>i. failed i = Some True) (items (ls ! k)))) \<and>
      successCount (generateReport ls ! k) =
        int (length (filter (\<lambda>i. failed i \<noteq> Some True) (items (ls ! k)))) \<and>
      ((\<forall>i \<in> set (items (ls ! k)). failed i = None) \<longrightarrow>
        successCount (generateReport ls ! k) = int (length (items (ls ! k)))))"
proof -
  have len: "length (generateReport ls) = length ls"
    by (simp add: generateReport_def)
  have each: "totalItems (generateReport ls ! k) = length (items (ls ! k)) \<and>
      successCount (generateReport ls ! k) =
        int (length (items (ls ! k))) - int (length (filter (\<lambda>i. failed i = Some True) (items (ls ! k)))) \<and>
      successCount (generateReport ls ! k) =
        int (length (filter (\<lambda>i. failed i \<noteq> Some True) (items (ls ! k)))) \<and>
      ((\<forall>i \<in> set (items (ls ! k)). failed i = None) \<longrightarrow>
        successCount (generateReport ls ! k) = int (length (items (ls ! k))))"
    if k: "k < length ls" for k
  proof -
    have g: "generateReport ls ! k = reportList (ls ! k)"
      using k by (auto simp: generateReport_def)
    have f: "filter isFailed (items (ls ! k)) = filter (\<lambda>i. failed i = Some True) (items (ls ! k))"
      by (simp add: isFailed_def [abs_def])
    have s: "successCount (reportList (ls ! k)) =
        int (length (items (ls ! k))) - int (length (filter (\<lambda>i. failed i = Some True) (items (ls ! k))))"
      by (simp add: reportList_def Let_def f)
    have n: "(\<forall>i \<in> set (items (ls ! k)). failed i = None) \<longrightarrow>
        filter (\<lambda>i. failed i = Some True) (items (ls ! k)) = []"
      by (auto simp: filter_empty_conv)
    show ?thesis
      using s n length_filter_split [of "items (ls ! k)" "\<lambda>i. failed i = Some True"]
      by (auto simp: g reportList_def Let_def)
  qed
  show ?thesis using len each by blast
qed

theorem generateReport_successCount_witness:
  "successCount
     (generateReport
        [\<lparr>listName = ''L'', listType = ''playlist'',
          items = [\<lparr>itemId = ''a'', name = ''A'', album_name = ''X'', artists = [''P''],
                    cover_url = None, URL = None, lyrics = None, cached = Some True, failed = None\<rparr>,
                   \<lparr>itemId = ''b'', name = ''B'', album_name = ''X'', artists = [''P''],
                    cover_url = None, URL = None, lyrics = None, cached = None, failed = None\<rparr>]\<rparr>] ! 0) = 2"
  using generateReport_successCount
    [of "[\<lparr>listName = ''L'', listType = ''playlist'',
          items = [\<lparr>itemId = ''a'', name = ''A'', album_name = ''X'', artists = [''P''],
                    cover_url = None, URL = None, lyrics = None, cached = Some True, failed = None\<rparr>,
                   \<lparr>itemId = ''b'', name = ''B'', album_name = ''X'', artists = [''P''],
                    cover_url = None, URL = None, lyrics = None, cached = None, failed = None\<rparr>]\<rparr>]"]
  by simp

subsection \<open>Credentialed API gate\<close>

lemma callsVerified_Nil: "callsVerified []"
  by (simp add: callsVerified_def)

lemma callsVerified_snoc_other:
  "callsVerified tr \<Longrightarrow> \<not> isApiCall e \<Longrightarrow> callsVerified (tr @ [e])"
  by (auto simp: callsVerified_def nth_append less_Suc_eq)

lemma callsVerified_snoc_call:
  "callsVerified tr \<Longrightarrow> callsVerified (tr @ [VerifyCredentials, ApiCall n])"
  by (auto simp: callsVerified_def isApiCall_def nth_append less_Suc_eq nth_Cons')

lemma callsVerified_attempt:
  "callsVerified tr \<Longrightarrow>
   callsVerified (tr @ [VerifyCredentials, ApiCall n] @ (if b then [Wait d] else []))"
  using callsVerified_snoc_other [OF callsVerified_snoc_call, of tr "Wait d" n]
  by (simp add: callsVerified_snoc_call isApiCall_def)

lemma loop_callsVerified:
  "callSpotifyApi_loop T env tries le tr = (tr', res) \<Longrightarrow> callsVerified tr \<Longrightarrow> callsVerified tr'"
proof (induction T env tries le tr rule: callSpotifyApi_loop.induct)
  case (1 T env tries lastError trace)
  show ?case
  proof (cases "tries \<le> maxRetries")
    case False
    then show ?thesis using "1.prems"
      by (auto simp: callSpotifyApi_loop.simps [of T env tries])
  next
    case True
    show ?thesis
    proof (cases "verifyOutcome env tries")
      case (Some a)
      then show ?thesis using True "1.prems"
        by (auto simp: callSpotifyApi_loop.simps [of T env tries] isApiCall_def
            intro: callsVerified_snoc_other)
    next
      case None
      show ?thesis
      proof (cases "apiOutcome env tries")
        case (Inr v)
        then show ?thesis using True None "1.prems" callsVerified_snoc_call [of trace tries]
          by (auto simp: callSpotifyApi_loop.simps [of T env tries])
      next
        case (Inl err)
        have step: "callSpotifyApi_loop T env (tries + 1) (Some err)
                   (trace @ [VerifyCredentials, ApiCall tries] @
                      (if tries < maxRetries then [Wait (T * 1000)] else [])) = (tr', res)"
          using "1.prems"(1) True None Inl by (simp add: callSpotifyApi_loop.simps [of T env tries])
        show ?thesis
          by (rule "1.IH" [OF True None Inl step]) (rule callsVerified_attempt [OF "1.prems"(2)])
      qed
    qed
  qed
qed


lemma loop_general:
  "callSpotifyApi_loop T env tries le tr = (tr', res) \<Longrightarrow> 1 \<le> tries \<Longrightarrow> tries \<le> Suc maxRetries \<Longrightarrow>
     length (filter isApiCall tr) = tries - 1 \<Longrightarrow>
     length (filter isWait tr) = min (tries - 1) (maxRetries - 1) \<Longrightarrow>
     (\<forall>e \<in> set tr. isWait e \<longrightarrow> e = Wait (T * 1000)) \<Longrightarrow>
     length (filter isApiCall tr') \<le> maxRetries \<and> length (filter isWait tr') \<le> maxRetries - 1 \<and>
     (\<forall>e \<in> set tr'. isWait e \<longrightarrow> e = Wait (T * 1000))"
proof (induction T env tries le tr rule: callSpotifyApi_loop.induct)
  case (1 T env tries lastError trace)
  show ?case
  proof (cases "tries \<le> maxRetries")
    case False
    then show ?thesis using "1.prems"
      by (auto simp: callSpotifyApi_loop.simps [of T env tries] maxRetries_def)
  next
    case True
    show ?thesis
    proof (cases "verifyOutcome env tries")
      case (Some a)
      then show ?thesis using True "1.prems"
        by (auto simp: callSpotifyApi_loop.simps [of T env tries] isApiCall_def isWait_def maxRetries_def)
    next
      case None
      show ?thesis
      proof (cases "apiOutcome env tries")
        case (Inr v)
        then show ?thesis using True None "1.prems"
          by (auto simp: callSpotifyApi_loop.simps [of T env tries] isApiCall_def isWait_def maxRetries_def)
      next
        case (Inl err)
        have step: "callSpotifyApi_loop T env (tries + 1) (Some err)
                   (trace @ [VerifyCredentials, ApiCall tries] @
                      (if tries < maxRetries then [Wait (T * 1000)] else [])) = (tr', res)"
          using "1.prems"(1) True None Inl by (simp add: callSpotifyApi_loop.simps [of T env tries])
        show ?thesis
          apply (rule "1.IH" [OF True None Inl step])
          using "1.prems" True
          by (auto simp: isApiCall_def isWait_def maxRetries_def)
      qed
    qed
  qed
qed

lemma loop_fail_step:
  assumes "tries \<le> maxRetries" "verifyOutcome env tries = None" "apiOutcome env tries = Inl e"
    and "nxt = tries + 1"
  shows "callSpotifyApi_loop T env tries le tr =
         callSpotifyApi_loop T env nxt (Some e)
           (tr @ [VerifyCredentials, ApiCall tries] @ (if tries < maxRetries then [Wait (T * 1000)] else []))"
  using assms by (subst callSpotifyApi_loop.simps) simp

lemma loop_ok_step:
  assumes "tries \<le> maxRetries" "verifyOutcome env tries = None" "apiOutcome env tries = Inr v"
  shows "callSpotifyApi_loop T env tries le tr = (tr @ [VerifyCredentials, ApiCall tries], Inr v)"
  using assms by (subst callSpotifyApi_loop.simps) simp

lemma loop_exhausted:
  assumes "\<not> tries \<le> maxRetries"
  shows "callSpotifyApi_loop T env tries (Some e) tr =
     (tr, Inl (Error (''Spotify API failed after 5 retries: '' @ message e)))"
  using assms by (subst callSpotifyApi_loop.simps) (simp add: maxRetries_def decimal.simps)

lemma loop_auth_step:
  assumes "tries \<le> maxRetries" "verifyOutcome env tries = Some a"
  shows "callSpotifyApi_loop T env tries le tr = (tr @ [VerifyCredentials], Inl a)"
  using assms by (subst callSpotifyApi_loop.simps) simp

lemma failedTries_1: "failedTries T (Suc 0) = []"
  by (simp add: failedTries_def)

lemma failedTries_Suc:
  "1 \<le> k \<Longrightarrow> failedTries T (Suc k) = failedTries T k @ [VerifyCredentials, ApiCall k, Wait (T * 1000)]"
  by (simp add: failedTries_def)

lemma failedTries_counts:
  "1 \<le> k \<Longrightarrow> length (filter isApiCall (failedTries T k)) = k - 1 \<and>
     length (filter isWait (failedTries T k)) = k - 1"
proof (induction k)
  case 0
  then show ?case by simp
next
  case (Suc k)
  show ?case
  proof (cases "k = 0")
    case True
    then show ?thesis by (simp add: failedTries_1)
  next
    case False
    then have k: "1 \<le> k" by simp
    from Suc.IH [OF k] k show ?thesis
      by (simp add: failedTries_Suc [OF k] isApiCall_def isWait_def)
  qed
qed

text \<open>After \<open>k - 1\<close> failed tries the loop stands at try \<open>k\<close> with the trace of the failed tries.\<close>

lemma loop_after_failures:
  assumes "1 \<le> k" "k \<le> maxRetries"
    "\<forall>n. 1 \<le> n \<and> n < k \<longrightarrow> verifyOutcome env n = None \<and> isl (apiOutcome env n)"
  shows "\<exists>le. callSpotifyApi T env = callSpotifyApi_loop T env k le (failedTries T k) \<and>
              (1 < k \<longrightarrow> (\<exists>e. apiOutcome env (k - 1) = Inl e \<and> le = Some e))"
  using assms
proof (induction k)
  case 0
  then show ?case by simp
next
  case (Suc k)
  show ?case
  proof (cases "k = 0")
    case True
    then have "callSpotifyApi T env = callSpotifyApi_loop T env (Suc k) None (failedTries T (Suc k))"
      by (simp add: callSpotifyApi_def failedTries_1)
    then show ?thesis using True by auto
  next
    case False
    then have k: "1 \<le> k" "k \<le> maxRetries" "k < maxRetries" using Suc.prems by simp_all
    from Suc.IH [OF k(1,2)] Suc.prems(3) obtain le where
      le: "callSpotifyApi T env = callSpotifyApi_loop T env k le (failedTries T k)"
      by auto
    from Suc.prems(3) k(1) have v: "verifyOutcome env k = None" and "isl (apiOutcome env k)"
      by simp_all
    then obtain e where e: "apiOutcome env k = Inl e" by (auto simp: isl_def)
    have "callSpotifyApi_loop T env k le (failedTries T k) =
          callSpotifyApi_loop T env (Suc k) (Some e)
            (failedTries T k @ [VerifyCredentials, ApiCall k] @
               (if k < maxRetries then [Wait (T * 1000)] else []))"
      by (rule loop_fail_step [OF k(2) v e]) simp
    then have "callSpotifyApi T env = callSpotifyApi_loop T env (Suc k) (Some e) (failedTries T (Suc k))"
      using le k(3) by (simp add: failedTries_Suc [OF k(1)])
    then show ?thesis using e by auto
  qed
qed

lemma success_at:
  assumes "1 \<le> k" "k \<le> maxRetries"
    "\<forall>n. 1 \<le> n \<and> n < k \<longrightarrow> verifyOutcome env n = None \<and> isl (apiOutcome env n)"
    "verifyOutcome env k = None" "apiOutcome env k = Inr v"
  shows "callSpotifyApi T env = (failedTries T k @ [VerifyCredentials, ApiCall k], Inr v)"
proof -
  from loop_after_failures [OF assms(1-3), of T] obtain le where
    "callSpotifyApi T env = callSpotifyApi_loop T env k le (failedTries T k)" by blast
  then show ?thesis by (simp add: loop_ok_step [OF assms(2,4,5)])
qed

lemma auth_error_at:
  assumes "1 \<le> k" "k \<le> maxRetries"
    "\<forall>n. 1 \<le> n \<and> n < k \<longrightarrow> verifyOutcome env n = None \<and> isl (apiOutcome env n)"
    "verifyOutcome env k = Some a"
  shows "callSpotifyApi T env = (failedTries T k @ [VerifyCredentials], Inl a)"
proof -
  from loop_after_failures [OF assms(1-3), of T] obtain le where
    "callSpotifyApi T env = callSpotifyApi_loop T env k le (failedTries T k)" by blast
  then show ?thesis by (simp add: loop_auth_step [OF assms(2,4)])
qed

lemma all_tries_fail:
  assumes "\<forall>n. 1 \<le> n \<and> n < maxRetries \<longrightarrow> verifyOutcome env n = None \<and> isl (apiOutcome env n)"
    "verifyOutcome env maxRetries = None" "apiOutcome env maxRetries = Inl e"
  shows "callSpotifyApi T env =
     (failedTries T maxRetries @ [VerifyCredentials, ApiCall maxRetries],
      Inl (Error (''Spotify API failed after 5 retries: '' @ message e)))"
proof -
  have m: "1 \<le> maxRetries" "maxRetries \<le> maxRetries" by (simp_all add: maxRetries_def)
  from loop_after_failures [OF m assms(1), of T] obtain le where
    "callSpotifyApi T env = callSpotifyApi_loop T env maxRetries le (failedTries T maxRetries)" by blast
  also have "\<dots> = callSpotifyApi_loop T env (maxRetries + 1) (Some e)
       (failedTries T maxRetries @ [VerifyCredentials, ApiCall maxRetries] @
          (if maxRetries < maxRetries then [Wait (T * 1000)] else []))"
    by (rule loop_fail_step [OF m(2) assms(2,3)]) simp
  also have "\<dots> = (failedTries T maxRetries @ [VerifyCredentials, ApiCall maxRetries] @
          (if maxRetries < maxRetries then [Wait (T * 1000)] else []),
      Inl (Error (''Spotify API failed after 5 retries: '' @ message e)))"
    by (rule loop_exhausted) simp
  finally show ?thesis by simp
qed

text \<open>
  C3. For every wrapped API call: each call of the underlying operation comes directly
  after a credential check; there are at most 5 calls and at most 4 waits, and every wait
  lasts the same \<open>TIMEOUT_RETRY * 1000\<close> ms (flat, no growth). A failed try is followed
  by the wait and the next try, and the first success ends the call: when the credential
  checks pass and the call fails on the tries before try \<open>k\<close> and succeeds on try \<open>k\<close>,
  for \<open>k\<close> from 1 to 5, the success value is returned after the checks, calls and waits
  of \<open>k - 1\<close> failed tries and the check and call of try \<open>k\<close>, that is after exactly
  \<open>k\<close> calls and \<open>k - 1\<close> waits (5 calls and 4 waits for \<open>k = 5\<close>). When all 5 tries
  fail, the error \<open>Spotify API failed after 5 retries: <message of the last error>\<close> is
  raised after 5 calls and 4 waits. A credential check that rejects ends the call with
  its error, without a call of the operation and without a retry.
\<close>

theorem callSpotifyApi_retry:
  "callsVerified (fst (callSpotifyApi T env)) \<and>
   length (filter isApiCall (fst (callSpotifyApi T env))) \<le> 5 \<and>
   length (filter isWait (fst (callSpotifyApi T env))) \<le> 4 \<and>
   (\<forall>e \<in> set (fst (callSpotifyApi T env)). isWait e \<longrightarrow> e = Wait (T * 1000)) \<and>
   (\<forall>k \<in> {1..5}.
      (\<forall>n \<in> {1..<k}. verifyOutcome env n = None \<and> isl (apiOutcome env n)) \<and>
      verifyOutcome env k = None \<and> apiOutcome env k = Inr v \<longrightarrow>
        callSpotifyApi T env = (failedTries T k @ [VerifyCredentials, ApiCall k], Inr v) \<and>
        length (filter isApiCall (fst (callSpotifyApi T env))) = k \<and>
        length (filter isWait (fst (callSpotifyApi T env))) = k - 1) \<and>
   ((\<forall>n \<in> {1..<5}. verifyOutcome env n = None \<and> isl (apiOutcome env n)) \<and>
    verifyOutcome env 5 = None \<and> apiOutcome env 5 = Inl e5 \<longrightarrow>
      callSpotifyApi T env =
        (failedTries T 5 @ [VerifyCredentials, ApiCall 5],
         Inl (Error (''Spotify API failed after 5 retries: '' @ message e5))) \<and>
      length (filter isApiCall (fst (callSpotifyApi T env))) = 5 \<and>
      length (filter isWait (fst (callSpotifyApi T env))) = 4) \<and>
   (\<forall>k \<in> {1..5}.
      (\<forall>n \<in> {1..<k}. verifyOutcome env n = None \<and> isl (apiOutcome env n)) \<and>
      verifyOutcome env k = Some authError \<longrightarrow>
        callSpotifyApi T env = (failedTries T k @ [VerifyCredentials], Inl authError))"
proof -
  obtain tr res where r: "callSpotifyApi T env = (tr, res)" by (cases "callSpotifyApi T env")
  then have l: "callSpotifyApi_loop T env 1 None [] = (tr, res)" by (simp add: callSpotifyApi_def)
  have g: "length (filter isApiCall tr) \<le> maxRetries \<and> length (filter isWait tr) \<le> maxRetries - 1 \<and>
     (\<forall>e \<in> set tr. isWait e \<longrightarrow> e = Wait (T * 1000))"
    by (rule loop_general [OF l]) (simp_all add: maxRetries_def)
  have c: "callsVerified tr"
    by (rule loop_callsVerified [OF l callsVerified_Nil])
  have ok: "callSpotifyApi T env = (failedTries T k @ [VerifyCredentials, ApiCall k], Inr v) \<and>
        length (filter isApiCall (fst (callSpotifyApi T env))) = k \<and>
        length (filter isWait (fst (callSpotifyApi T env))) = k - 1"
    if k: "k \<in> {1..5}" and
       h: "(\<forall>n \<in> {1..<k}. verifyOutcome env n = None \<and> isl (apiOutcome env n)) \<and>
           verifyOutcome env k = None \<and> apiOutcome env k = Inr v" for k
  proof -
    have k1: "1 \<le> k" "k \<le> maxRetries" using k by (simp_all add: maxRetries_def)
    have p: "\<forall>n. 1 \<le> n \<and> n < k \<longrightarrow> verifyOutcome env n = None \<and> isl (apiOutcome env n)"
      using h by simp
    have "callSpotifyApi T env = (failedTries T k @ [VerifyCredentials, ApiCall k], Inr v)"
      using success_at [OF k1 p, of v T] h by simp
    then show ?thesis using failedTries_counts [OF k1(1), of T] k1(1)
      by (simp add: isApiCall_def isWait_def)
  qed
  have bad: "callSpotifyApi T env =
        (failedTries T 5 @ [VerifyCredentials, ApiCall 5],
         Inl (Error (''Spotify API failed after 5 retries: '' @ message e5))) \<and>
      length (filter isApiCall (fst (callSpotifyApi T env))) = 5 \<and>
      length (filter isWait (fst (callSpotifyApi T env))) = 4"
    if h: "(\<forall>n \<in> {1..<5}. verifyOutcome env n = None \<and> isl (apiOutcome env n)) \<and>
           verifyOutcome env 5 = None \<and> apiOutcome env 5 = Inl e5"
  proof -
    have p: "\<forall>n. 1 \<le> n \<and> n < maxRetries \<longrightarrow> verifyOutcome env n = None \<and> isl (apiOutcome env n)"
      using h by (simp add: maxRetries_def)
    have "callSpotifyApi T env =
        (failedTries T 5 @ [VerifyCredentials, ApiCall 5],
         Inl (Error (''Spotify API failed after 5 retries: '' @ message e5)))"
      using all_tries_fail [OF p, of e5 T] h by (simp add: maxRetries_def)
    then show ?thesis using failedTries_counts [of 5 T]
      by (simp add: isApiCall_def isWait_def)
  qed
  have auth: "callSpotifyApi T env = (failedTries T k @ [VerifyCredentials], Inl authError)"
    if k: "k \<in> {1..5}" and
       h: "(\<forall>n \<in> {1..<k}. verifyOutcome env n = None \<and> isl (apiOutcome env n)) \<and>
           verifyOutcome env k = Some authError" for k
  proof -
    have k1: "1 \<le> k" "k \<le> maxRetries" using k by (simp_all add: maxRetries_def)
    have p: "\<forall>n. 1 \<le> n \<and> n < k \<longrightarrow> verifyOutcome env n = None \<and> isl (apiOutcome env n)"
      using h by simp
    show ?thesis using auth_error_at [OF k1 p, of authError T] h by simp
  qed
  have g': "callsVerified (fst (callSpotifyApi T env)) \<and>
   length (filter isApiCall (fst (callSpotifyApi T env))) \<le> 5 \<and>
   length (filter isWait (fst (callSpotifyApi T env))) \<le> 4 \<and>
   (\<forall>e \<in> set (fst (callSpotifyApi T env)). isWait e \<longrightarrow> e = Wait (T * 1000))"
    using g c by (simp add: r maxRetries_def)
  show ?thesis using g' ok bad auth by blast
qed

lemma failedTries_eval:
  "failedTries T 2 = [VerifyCredentials, ApiCall 1, Wait (T * 1000)]"
  "failedTries T 5 =
     [VerifyCredentials, ApiCall 1, Wait (T * 1000), VerifyCredentials, ApiCall 2, Wait (T * 1000),
      VerifyCredentials, ApiCall 3, Wait (T * 1000), VerifyCredentials, ApiCall 4, Wait (T * 1000)]"
  by (simp_all add: failedTries_def upt_rec)

theorem callSpotifyApi_retry_witness:
  "callSpotifyApi 60 rateLimited =
     ([VerifyCredentials, ApiCall 1, Wait 60000, VerifyCredentials, ApiCall 2, Wait 60000,
       VerifyCredentials, ApiCall 3, Wait 60000, VerifyCredentials, ApiCall 4, Wait 60000,
       VerifyCredentials, ApiCall 5], Inr 42) \<and>
   callSpotifyApi 60 failsOnce =
     ([VerifyCredentials, ApiCall 1, Wait 60000, VerifyCredentials, ApiCall 2], Inr 7) \<and>
   list_all (\<lambda>e. \<not> isWait e \<or> e = Wait 60000) (fst (callSpotifyApi 60 rateLimited))"
proof -
  have h5: "(5::nat) \<in> {1..5}" "(\<forall>n \<in> {1..<5}. verifyOutcome rateLimited n = None \<and>
      isl (apiOutcome rateLimited n)) \<and> verifyOutcome rateLimited 5 = None \<and>
      apiOutcome rateLimited 5 = Inr 42"
    by (simp_all add: rateLimited_def)
  have h2: "(2::nat) \<in> {1..5}" "(\<forall>n \<in> {1..<2}. verifyOutcome failsOnce n = None \<and>
      isl (apiOutcome failsOnce n)) \<and> verifyOutcome failsOnce 2 = None \<and>
      apiOutcome failsOnce 2 = Inr 7"
    by (simp_all add: failsOnce_def)
  have a: "callSpotifyApi 60 rateLimited = (failedTries 60 5 @ [VerifyCredentials, ApiCall 5], Inr 42)"
    using callSpotifyApi_retry [of 60 rateLimited 42 "Error []" "Error []"] h5 by blast
  have b: "callSpotifyApi 60 failsOnce = (failedTries 60 2 @ [VerifyCredentials, ApiCall 2], Inr 7)"
    using callSpotifyApi_retry [of 60 failsOnce 7 "Error []" "Error []"] h2 by blast
  have "\<forall>e \<in> set (fst (callSpotifyApi 60 rateLimited)). isWait e \<longrightarrow> e = Wait (60 * 1000)"
    using callSpotifyApi_retry [of 60 rateLimited 42 "Error []" "Error []"] by blast
  then have c: "list_all (\<lambda>e. \<not> isWait e \<or> e = Wait 60000) (fst (callSpotifyApi 60 rateLimited))"
    by (auto simp: list_all_iff)
  show ?thesis using a b c by (simp add: failedTries_eval)
qed

subsection \<open>Source ranker\<close>








lemma sample_lower:
  "toLowerCase ''Halo (LIVE)'' = ''halo (live)''" "toLowerCase ''Halo'' = ''halo''"
  "toLowerCase ''official'' = ''official''" "toLowerCase ''Halo 10 hours'' = ''halo 10 hours''"
  "toLowerCase ''live'' = ''live''" "toLowerCase [] = []"
  by (simp_all add: toLowerCase_def toLowerCaseChar_def upperCaseLetters_def lowerCaseLetters_def)

lemma sample_eval_any:
  "q \<noteq> [] \<Longrightarrow>
   findLinks sampleSearch sampleConsts q ''song'' [''live''] = [''https://youtube.com/watch?v=ok'']"
  by (simp add: findLinks_def sampleSearch_def sampleConsts_def passesExclusion_def passesDuration_def
      toUrl_def sample_lower)





subsection \<open>Fallback search tiers\<close>

lemma getLinks_no_item: "itemName p = [] \<Longrightarrow> getLinks search cfg sim p = ([], [])"
  by (simp add: getLinks_def)

lemma getLinks_cases:
  assumes "itemName p \<noteq> []"
  shows "getLinks search cfg sim p =
     (let c1 = (if ranCustom p
                then [(CustomTier, projr (generateTemplateString (itemName p) (albumName p)
                                            (artistName p) (searchFormat p)))]
                else []) in
      if customLinks search cfg p \<noteq> [] then (c1, customLinks search cfg p)
      else
        let c2 = c1 @ (if sim (itemName p) (albumName p) < 1 / 2 \<and> albumName p \<noteq> []
                       then [(AlbumTier, albumQuery p)] else []) in
        if albumLinks search cfg sim p = [] \<and> artistName p \<noteq> [] then
          (c2 @ [(ArtistTier, artistQuery p)],
           findLinks search cfg (artistQuery p) (itemType p) (exclusionFilters p))
        else (c2, albumLinks search cfg sim p))"
  using assms
  by (cases "generateTemplateString (itemName p) (albumName p) (artistName p) (searchFormat p)")
     (auto simp: getLinks_def Let_def ranCustom_def customLinks_def albumLinks_def albumQuery_def
        artistQuery_def extraTerm_def)

lemma getLinks_failed_template:
  assumes "isl (generateTemplateString (itemName p) (albumName p) (artistName p) (searchFormat p))"
  shows "getLinks search cfg sim p = getLinks search cfg sim (p\<lparr>searchFormat := []\<rparr>)"
  using assms
  by (cases "generateTemplateString (itemName p) (albumName p) (artistName p) (searchFormat p)")
     (auto simp: getLinks_def Let_def)

lemma halo_halo: "\<not> compareTwoStrings ''Halo'' ''Halo'' < 1 / 2"
  by (simp add: compareTwoStrings_def)

lemma halo_greatest_hits: "compareTwoStrings ''Halo'' ''Greatest Hits'' < 1 / 2"
  by (simp add: compareTwoStrings_def isWhiteSpace_def bigrams_def)

text \<open>
  C4. \<open>getLinks\<close> calls the tiers in the order custom, album, artist. The custom tier
  runs exactly when an item name and a template are supplied and the template renders; a
  template that fails to render is not propagated, the call behaves as if no template
  had been supplied. The album-prefixed search \<open>album - item extra\<close> runs exactly when
  the custom tier gave no link, the similarity of item and album name is below 0.5 and an
  album name exists (item Halo with album Halo skips it, item Halo with album Greatest
  Hits attempts it). The artist-prefixed search runs exactly when the result is still
  empty and an artist name exists. The result is that of the first tier with a link.
\<close>

theorem getLinks_tiers:
  "subseq (map fst (fst (getLinks search cfg sim p))) [CustomTier, AlbumTier, ArtistTier] \<and>
   (CustomTier \<in> set (map fst (fst (getLinks search cfg sim p))) \<longleftrightarrow> ranCustom p) \<and>
   (isl (generateTemplateString (itemName p) (albumName p) (artistName p) (searchFormat p)) \<longrightarrow>
      getLinks search cfg sim p = getLinks search cfg sim (p\<lparr>searchFormat := []\<rparr>)) \<and>
   (AlbumTier \<in> set (map fst (fst (getLinks search cfg sim p))) \<longleftrightarrow>
      itemName p \<noteq> [] \<and> customLinks search cfg p = [] \<and>
      sim (itemName p) (albumName p) < 1 / 2 \<and> albumName p \<noteq> []) \<and>
   (\<forall>q. (AlbumTier, q) \<in> set (fst (getLinks search cfg sim p)) \<longrightarrow>
      q = albumName p @ '' - '' @ itemName p @ (if extraSearch p = [] then [] else '' '' @ extraSearch p)) \<and>
   (ArtistTier \<in> set (map fst (fst (getLinks search cfg sim p))) \<longleftrightarrow>
      itemName p \<noteq> [] \<and> customLinks search cfg p = [] \<and>
      albumLinks search cfg sim p = [] \<and> artistName p \<noteq> []) \<and>
   snd (getLinks search cfg sim p) =
     (if itemName p = [] then []
      else if customLinks search cfg p \<noteq> [] then customLinks search cfg p
      else if albumLinks search cfg sim p \<noteq> [] then albumLinks search cfg sim p
      else if artistName p \<noteq> [] then
        findLinks search cfg (artistQuery p) (itemType p) (exclusionFilters p)
      else []) \<and>
   (itemName p = ''Halo'' \<and> albumName p = ''Halo'' \<longrightarrow>
      AlbumTier \<notin> set (map fst (fst (getLinks search cfg compareTwoStrings p)))) \<and>
   (itemName p = ''Halo'' \<and> albumName p = ''Greatest Hits'' \<and> customLinks search cfg p = [] \<longrightarrow>
      AlbumTier \<in> set (map fst (fst (getLinks search cfg compareTwoStrings p))))"
proof (cases "itemName p = []")
  case True
  then show ?thesis
    using getLinks_failed_template [of p search cfg sim]
    by (simp add: getLinks_no_item ranCustom_def)
next
  case False
  note c = getLinks_cases [OF False, of search cfg]
  have t1: "subseq (map fst (fst (getLinks search cfg sim p))) [CustomTier, AlbumTier, ArtistTier]"
    by (auto simp: c Let_def)
  have t2: "CustomTier \<in> set (map fst (fst (getLinks search cfg sim p))) \<longleftrightarrow> ranCustom p"
    by (auto simp: c Let_def)
  have t3: "AlbumTier \<in> set (map fst (fst (getLinks search cfg sim' p))) \<longleftrightarrow>
      itemName p \<noteq> [] \<and> customLinks search cfg p = [] \<and>
      sim' (itemName p) (albumName p) < 1 / 2 \<and> albumName p \<noteq> []" for sim'
    using False by (auto simp: c Let_def)
  have t4: "\<forall>q. (AlbumTier, q) \<in> set (fst (getLinks search cfg sim p)) \<longrightarrow>
      q = albumName p @ '' - '' @ itemName p @ (if extraSearch p = [] then [] else '' '' @ extraSearch p)"
    by (auto simp: c Let_def albumQuery_def extraTerm_def)
  have t5: "ArtistTier \<in> set (map fst (fst (getLinks search cfg sim p))) \<longleftrightarrow>
      itemName p \<noteq> [] \<and> customLinks search cfg p = [] \<and>
      albumLinks search cfg sim p = [] \<and> artistName p \<noteq> []"
    using False by (auto simp: c Let_def)
  have t6: "snd (getLinks search cfg sim p) =
     (if itemName p = [] then []
      else if customLinks search cfg p \<noteq> [] then customLinks search cfg p
      else if albumLinks search cfg sim p \<noteq> [] then albumLinks search cfg sim p
      else if artistName p \<noteq> [] then
        findLinks search cfg (artistQuery p) (itemType p) (exclusionFilters p)
      else [])"
    using False by (auto simp: c Let_def)
  have t7: "itemName p = ''Halo'' \<and> albumName p = ''Halo'' \<longrightarrow>
      AlbumTier \<notin> set (map fst (fst (getLinks search cfg compareTwoStrings p)))"
    using t3 [of compareTwoStrings] halo_halo by auto
  have t8: "itemName p = ''Halo'' \<and> albumName p = ''Greatest Hits'' \<and> customLinks search cfg p = [] \<longrightarrow>
      AlbumTier \<in> set (map fst (fst (getLinks search cfg compareTwoStrings p)))"
    using t3 [of compareTwoStrings] halo_greatest_hits by auto
  show ?thesis
    using t1 t2 t3 [of sim] t4 t5 t6 t7 t8 getLinks_failed_template [of p search cfg sim] by blast
qed

theorem getLinks_tiers_witness:
  "fst (getLinks sampleSearch sampleConsts compareTwoStrings
     \<lparr>itemName = ''Halo'', albumName = ''Greatest Hits'', artistName = ''Beyonce'',
      extraSearch = [], searchFormat = ''{itemName} {foo}'', itemType = ''song'',
      exclusionFilters = [''live'']\<rparr>) = [(AlbumTier, ''Greatest Hits - Halo'')] \<and>
   snd (getLinks sampleSearch sampleConsts compareTwoStrings
     \<lparr>itemName = ''Halo'', albumName = ''Greatest Hits'', artistName = ''Beyonce'',
      extraSearch = [], searchFormat = ''{itemName} {foo}'', itemType = ''song'',
      exclusionFilters = [''live'']\<rparr>) = [''https://youtube.com/watch?v=ok''] \<and>
   AlbumTier \<notin> set (map fst (fst (getLinks sampleSearch sampleConsts compareTwoStrings
     \<lparr>itemName = ''Halo'', albumName = ''Halo'', artistName = ''Beyonce'',
      extraSearch = [], searchFormat = [], itemType = ''song'', exclusionFilters = []\<rparr>)))"
proof -
  let ?p = "\<lparr>itemName = ''Halo'', albumName = ''Greatest Hits'', artistName = ''Beyonce'',
      extraSearch = [], searchFormat = ''{itemName} {foo}'', itemType = ''song'',
      exclusionFilters = [''live'']\<rparr>"
  let ?q = "\<lparr>itemName = ''Halo'', albumName = ''Halo'', artistName = ''Beyonce'',
      extraSearch = [], searchFormat = [], itemType = ''song'', exclusionFilters = []\<rparr>"
  have t: "isl (generateTemplateString (itemName ?p) (albumName ?p) (artistName ?p) (searchFormat ?p))"
    by (simp add: generateTemplateString_def contextsOf_def VALID_CONTEXTS_def isLineTerminator_def)
  have e: "getLinks sampleSearch sampleConsts compareTwoStrings ?p =
           getLinks sampleSearch sampleConsts compareTwoStrings (?p\<lparr>searchFormat := []\<rparr>)"
    using getLinks_tiers [of sampleSearch sampleConsts compareTwoStrings ?p] t by blast
  have f: "findLinks sampleSearch sampleConsts ''Greatest Hits - Halo'' ''song'' [''live''] =
     [''https://youtube.com/watch?v=ok'']"
    by (rule sample_eval_any) simp
  have g: "getLinks sampleSearch sampleConsts compareTwoStrings (?p\<lparr>searchFormat := []\<rparr>) =
     ([(AlbumTier, ''Greatest Hits - Halo'')], [''https://youtube.com/watch?v=ok''])"
    using halo_greatest_hits f by (simp add: getLinks_def Let_def)
  have h0: "itemName ?q = ''Halo'' \<and> albumName ?q = ''Halo''" by simp
  have h: "AlbumTier \<notin> set (map fst (fst (getLinks sampleSearch sampleConsts compareTwoStrings ?q)))"
    using getLinks_tiers [of sampleSearch sampleConsts compareTwoStrings ?q] h0 by blast
  show ?thesis using e g h by simp
qed
subsection \<open>Template rendering\<close>

lemma lazyMatch_shorter: "lazyMatch s = Some (m, rest) \<Longrightarrow> length rest < length s"
  by (induction s arbitrary: m rest rule: lazyMatch.induct)
     (auto split: if_splits option.splits)

text \<open>The scan for placeholders never runs out of fuel: more fuel than characters changes nothing.\<close>

lemma matchContexts_fuel:
  "length s \<le> n \<Longrightarrow> length s \<le> k \<Longrightarrow> matchContexts n prev s = matchContexts k prev s"
proof (induction n prev s arbitrary: k rule: matchContexts.induct)
  case (1 prev s)
  then show ?case by (cases k) simp_all
next
  case (2 fuel prev)
  then show ?case by (cases k) simp_all
next
  case (3 fuel prev c cs)
  from "3.prems" obtain k' where k: "k = Suc k'" by (cases k) auto
  show ?case
  proof (cases "prev = Some (CHR ''{'')")
    case False
    then show ?thesis using "3.IH" [where k = k'] "3.prems" k by simp
  next
    case True
    show ?thesis
    proof (cases "lazyMatch (c # cs)")
      case None
      then show ?thesis using True "3.IH" [where k = k'] "3.prems" k by simp
    next
      case (Some a)
      obtain m rest where a: "a = (m, rest)" by (cases a)
      have "length rest < length (c # cs)" using lazyMatch_shorter Some a by blast
      then have l: "length rest \<le> fuel" "length rest \<le> k'" using "3.prems" k by simp_all
      have "matchContexts fuel (Some (last m)) rest = matchContexts k' (Some (last m)) rest"
        using "3.IH" [where k = k'] True Some a l by simp
      then show ?thesis using True Some a k by simp
    qed
  qed
qed

lemma generateTemplateString_invalid:
  assumes "format \<noteq> []" "filter (\<lambda>c. c \<notin> set VALID_CONTEXTS) (contextsOf format) \<noteq> []"
  shows "generateTemplateString i a r format =
     Inl (Error (''Invalid template contexts: '' @
                 joinWith '', '' (filter (\<lambda>c. c \<notin> set VALID_CONTEXTS) (contextsOf format)) @
                 ''. Valid contexts are: itemName, albumName, artistName''))"
proof -
  have "contextsOf format \<noteq> []" using assms(2) by auto
  then show ?thesis using assms
    by (simp add: generateTemplateString_def Let_def) (simp add: VALID_CONTEXTS_def)
qed

lemma generateTemplateString_example:
  "generateTemplateString ''A'' ''B'' ''C'' ''{itemName} - {albumName}'' = Inr ''A - B''"
  by (simp add: generateTemplateString_def contextsOf_def VALID_CONTEXTS_def jsReplace_def
      contextMap_def isLineTerminator_def)

lemma generateTemplateString_unknown:
  "generateTemplateString ''A'' ''B'' ''C'' ''{itemName} - {foo}'' =
     Inl (Error ''Invalid template contexts: foo. Valid contexts are: itemName, albumName, artistName'')"
  by (simp add: generateTemplateString_def contextsOf_def VALID_CONTEXTS_def isLineTerminator_def)

text \<open>
  C8. When all placeholders are from the fixed set, each is to be replaced by the
  corresponding value. The code inserts the value with
  \<open>result.replace(`{${context}}`, value)\<close>, whose second argument is a replacement
  pattern: for the item name \<open>BO$$\<close> the placeholder \<open>{itemName}\<close> is replaced by
  \<open>BO$\<close>, not by the value.
\<close>

theorem generateTemplateString_dollar_value:
  "generateTemplateString ''BO$$'' ''Reflection'' ''Fifth Harmony'' ''{artistName} - {itemName}'' =
     Inr ''Fifth Harmony - BO$''"
  by (simp add: generateTemplateString_def contextsOf_def VALID_CONTEXTS_def jsReplace_def
      contextMap_def isLineTerminator_def)

subsection \<open>Acquisition engine\<close>

lemma no_suppression:
  assumes "videoIdOf env link = Inr (Some v)"
    and "isl (getSegments env v) \<or> getSegments env v = Inr []"
  shows "sponsorComplexFilter env link = Inr None"
  using assms
  by (cases "getSegments env v")
     (auto simp: sponsorComplexFilter_def mergeSegments_def)

lemma sponsorComplexFilter_parsed:
  assumes "\<not> isl (videoIdOf env link)"
  shows "\<not> isl (sponsorComplexFilter env link)"
  using assms
  by (auto simp: sponsorComplexFilter_def Let_def split: sum.splits option.splits)

lemma list_all_butlast: "list_all P xs \<Longrightarrow> list_all P (butlast xs)"
  by (auto simp: list_all_iff dest: in_set_butlastD)

lemma all_failed_last:
  "list_all failedAttempt tr \<Longrightarrow> \<not> (tr \<noteq> [] \<and> attemptError (last tr) = None)"
  by (auto simp: list_all_iff failedAttempt_def dest: last_in_set)

lemma loopPost_exhausted:
  assumes "loopInv env links outFile count trace" "\<not> count < length links"
  shows "loopPost env links outFile trace (Inr False)"
proof -
  have c: "count = length links" "length trace = count" "list_all failedAttempt trace"
    using assms by (simp_all add: loopInv_def)
  show ?thesis
    unfolding loopPost_def
    using assms(1) c all_failed_last [OF c(3)] list_all_butlast [OF c(3)]
    by (simp add: loopInv_def)
qed

lemma loopPost_thrown:
  assumes "loopInv env links outFile count trace" "count < length links"
    "sponsorComplexFilter env (links ! count) = Inl e"
  shows "loopPost env links outFile trace (Inl e)"
proof -
  have c: "length trace = count" "list_all failedAttempt trace"
    using assms by (simp_all add: loopInv_def)
  show ?thesis
    unfolding loopPost_def
    using assms c all_failed_last [OF c(2)] list_all_butlast [OF c(2)]
    by (simp add: loopInv_def)
qed

lemma loopPost_success:
  assumes "loopInv env links outFile count trace" "count < length links"
    "sponsorComplexFilter env (links ! count) = Inr cf"
    "transcode env count (links ! count) cf outFile = None"
  shows "loopPost env links outFile
     (trace @ [\<lparr>attemptCount = count, attemptLink = links ! count,
                 attemptFilter = cf, attemptError = None\<rparr>]) (Inr True)"
  unfolding loopPost_def
  using assms by (simp add: loopInv_def take_Suc_conv_app_nth faithfulAttempt_def)

lemma loopInv_failure:
  assumes "loopInv env links outFile count trace" "count < length links"
    "sponsorComplexFilter env (links ! count) = Inr cf"
    "transcode env count (links ! count) cf outFile = Some err"
  shows "loopInv env links outFile (count + 1)
     (trace @ [\<lparr>attemptCount = count, attemptLink = links ! count,
                 attemptFilter = cf, attemptError = Some err\<rparr>])"
  using assms
  by (simp add: loopInv_def take_Suc_conv_app_nth faithfulAttempt_def failedAttempt_def)

lemma downloader_loop_post:
  "loopInv env links outFile count trace \<Longrightarrow>
   downloader_loop env links outFile count trace = (trace', res) \<Longrightarrow>
   loopPost env links outFile trace' res"
proof (induction env links outFile count trace rule: downloader_loop.induct)
  case (1 env links outFile count trace)
  note inv = "1.prems"(1) and run = "1.prems"(2)
  show ?case
  proof (cases "count < length links")
    case False
    then have "trace' = trace" "res = Inr False"
      using run by (simp_all add: downloader_loop.simps [of env links outFile count])
    then show ?thesis using loopPost_exhausted [OF inv False] by simp
  next
    case True
    show ?thesis
    proof (cases "sponsorComplexFilter env (links ! count)")
      case (Inl e)
      then have "trace' = trace" "res = Inl e"
        using run True by (simp_all add: downloader_loop.simps [of env links outFile count])
      then show ?thesis using loopPost_thrown [OF inv True Inl] by simp
    next
      case (Inr cf)
      show ?thesis
      proof (cases "transcode env count (links ! count) cf outFile")
        case None
        then have "trace' = trace @ [\<lparr>attemptCount = count, attemptLink = links ! count,
                 attemptFilter = cf, attemptError = None\<rparr>]" "res = Inr True"
          using run True Inr by (simp_all add: downloader_loop.simps [of env links outFile count])
        then show ?thesis using loopPost_success [OF inv True Inr None] by simp
      next
        case (Some err)
        then have r: "downloader_loop env links outFile (count + 1)
            (trace @ [\<lparr>attemptCount = count, attemptLink = links ! count,
                 attemptFilter = cf, attemptError = Some err\<rparr>]) = (trace', res)"
          using run True Inr by (simp add: downloader_loop.simps [of env links outFile count])
        show ?thesis
          by (rule "1.IH" [OF True refl Inr Some loopInv_failure [OF inv True Inr Some] r])
      qed
    qed
  qed
qed

lemma downloader_post: "loopPost env links outFile (fst (downloader env links outFile)) (snd (downloader env links outFile))"
proof (cases "links = []")
  case True
  then show ?thesis by (simp add: downloader_def loopPost_def)
next
  case False
  obtain tr res where r: "downloader_loop env links outFile 0 [] = (tr, res)"
    by (cases "downloader_loop env links outFile 0 []")
  have "loopInv env links outFile 0 []" by (simp add: loopInv_def)
  from downloader_loop_post [OF this r] show ?thesis using False r
    by (simp add: downloader_def)
qed

text \<open>
  C2 (as amended). For every ordered list of candidates each of which parses as an
  absolute URL, and every destination path: the call returns a boolean and does not
  throw; the candidates that reached the transcoder are a prefix of the list in list
  order; every attempt but the last failed in the transcoder, and the call returns true
  exactly when the last attempt succeeded, so it stops at the first success and a
  transcoding error advances to the next candidate; it returns false only after every
  candidate of the list was attempted and failed; every attempt ran with the filter the
  planner gave and failed or succeeded as the transcoder did; and a candidate whose
  segment provider failed or returned nothing was transcoded without a filter.
\<close>

theorem downloader_fallback:
  assumes "\<forall>link \<in> set links. \<not> isl (videoIdOf env link)"
  shows "(\<exists>b. snd (downloader env links outFile) = Inr b) \<and>
    map attemptLink (fst (downloader env links outFile)) =
      take (length (fst (downloader env links outFile))) links \<and>
    list_all failedAttempt (butlast (fst (downloader env links outFile))) \<and>
    (snd (downloader env links outFile) = Inr True \<longleftrightarrow>
       fst (downloader env links outFile) \<noteq> [] \<and>
       attemptError (last (fst (downloader env links outFile))) = None) \<and>
    (snd (downloader env links outFile) = Inr False \<longrightarrow>
       length (fst (downloader env links outFile)) = length links \<and>
       list_all failedAttempt (fst (downloader env links outFile))) \<and>
    list_all (faithfulAttempt env outFile) (fst (downloader env links outFile)) \<and>
    (\<forall>a \<in> set (fst (downloader env links outFile)). \<forall>v.
       videoIdOf env (attemptLink a) = Inr (Some v) \<and>
       (isl (getSegments env v) \<or> getSegments env v = Inr []) \<longrightarrow>
       attemptFilter a = None)"
proof -
  let ?tr = "fst (downloader env links outFile)"
  let ?res = "snd (downloader env links outFile)"
  have post: "loopPost env links outFile ?tr ?res" by (rule downloader_post)
  have nothrow: "\<exists>b. ?res = Inr b"
  proof (cases ?res)
    case (Inl e)
    with post have "length ?tr < length links"
      "sponsorComplexFilter env (links ! length ?tr) = Inl e"
      by (simp_all add: loopPost_def)
    moreover from this(1) have "\<not> isl (videoIdOf env (links ! length ?tr))"
      using assms by simp
    ultimately show ?thesis using sponsorComplexFilter_parsed [of env "links ! length ?tr"]
      by simp
  next
    case (Inr b)
    then show ?thesis by simp
  qed
  have nofilter: "attemptFilter a = None"
    if a: "a \<in> set ?tr" and v: "videoIdOf env (attemptLink a) = Inr (Some v)"
      "isl (getSegments env v) \<or> getSegments env v = Inr []" for a v
  proof -
    from post a have "sponsorComplexFilter env (attemptLink a) = Inr (attemptFilter a)"
      by (simp add: loopPost_def list_all_iff faithfulAttempt_def)
    with no_suppression [OF v] show ?thesis by simp
  qed
  show ?thesis using post nothrow nofilter
    unfolding loopPost_def by blast
qed

lemma thirdSucceeds_run:
  "downloader thirdSucceeds
     [''https://youtube.com/watch?v=a'', ''https://youtube.com/watch?v=b'',
      ''https://youtube.com/watch?v=c''] ''/music/song.mp3'' =
   ([\<lparr>attemptCount = 0, attemptLink = ''https://youtube.com/watch?v=a'', attemptFilter = None,
       attemptError = Some (Error ''ffmpeg exited with code 1'')\<rparr>,
     \<lparr>attemptCount = 1, attemptLink = ''https://youtube.com/watch?v=b'', attemptFilter = None,
       attemptError = Some (Error ''ffmpeg exited with code 1'')\<rparr>,
     \<lparr>attemptCount = 2, attemptLink = ''https://youtube.com/watch?v=c'', attemptFilter = None,
       attemptError = None\<rparr>], Inr True)"
  by (simp add: downloader_def downloader_loop.simps thirdSucceeds_def sponsorComplexFilter_def
      mergeSegments_def)

theorem downloader_fallback_witness:
  "snd (downloader thirdSucceeds
     [''https://youtube.com/watch?v=a'', ''https://youtube.com/watch?v=b'',
      ''https://youtube.com/watch?v=c''] ''/music/song.mp3'') = Inr True \<and>
   map attemptLink (fst (downloader thirdSucceeds
     [''https://youtube.com/watch?v=a'', ''https://youtube.com/watch?v=b'',
      ''https://youtube.com/watch?v=c''] ''/music/song.mp3'')) =
     [''https://youtube.com/watch?v=a'', ''https://youtube.com/watch?v=b'',
      ''https://youtube.com/watch?v=c''] \<and>
   list_all failedAttempt (butlast (fst (downloader thirdSucceeds
     [''https://youtube.com/watch?v=a'', ''https://youtube.com/watch?v=b'',
      ''https://youtube.com/watch?v=c''] ''/music/song.mp3'')))"
proof -
  have h: "\<forall>link \<in> set [''https://youtube.com/watch?v=a'', ''https://youtube.com/watch?v=b'',
      ''https://youtube.com/watch?v=c'']. \<not> isl (videoIdOf thirdSucceeds link)"
    by (simp add: thirdSucceeds_def)
  from downloader_fallback [OF h, of "''/music/song.mp3''"]
  have "list_all failedAttempt (butlast (fst (downloader thirdSucceeds
     [''https://youtube.com/watch?v=a'', ''https://youtube.com/watch?v=b'',
      ''https://youtube.com/watch?v=c''] ''/music/song.mp3'')))"
    by blast
  then show ?thesis by (simp add: thirdSucceeds_run)
qed

text \<open>
  C2 as stated fails: \<open>sponsorComplexFilter\<close> parses the candidate with \<open>new URL(link)\<close>
  outside every \<open>try\<close>, so a candidate that is not an absolute URL makes the call throw
  instead of returning false.
\<close>

theorem downloader_throws_on_unparsable_link:
  "downloader noScheme [''youtube.com/watch?v=abc''] ''/music/song.mp3'' =
     ([], Inl (Error ''Invalid URL''))"
  by (simp add: downloader_def downloader_loop.simps noScheme_def sponsorComplexFilter_def)

subsection \<open>Metadata tagger\<close>








lemma tagPhase_props:
  assumes "tagPhase env outFile c songData w2 = (ts, w3)"
  shows "\<exists>r. ts = [UpdateTags (buildMetadata songData (if fileExists w2 c then Some c else None)) r] \<and>
             (r \<noteq> None \<longrightarrow> w3 = w2) \<and>
             (r = None \<longrightarrow> tagsOf w3 outFile =
                 Some (buildMetadata songData (if fileExists w2 c then Some c else None))) \<and>
             fileExists w3 = fileExists w2"
  using assms
  by (auto simp: tagPhase_def Let_def split: option.splits)












subsection \<open>Dedup cache\<close>

lemma jsSplit_Nil: "jsSplit [d] [] = [[]]"
  by (simp add: jsSplit.simps)

lemma jsSplit_Cons:
  "jsSplit [d] (c # cs) =
     (if c = d then [] # jsSplit [d] cs
      else (case jsSplit [d] cs of l # ls \<Rightarrow> (c # l) # ls | [] \<Rightarrow> [[c]]))"
  by (subst jsSplit.simps) (simp split: list.splits)

lemma jsSplit_nonempty: "jsSplit [d] s \<noteq> []"
  by (induction s) (auto simp: jsSplit_Nil jsSplit_Cons split: list.splits)

lemma jsSplit_no_separator: "d \<notin> set s \<Longrightarrow> jsSplit [d] s = [s]"
  by (induction s) (auto simp: jsSplit_Nil jsSplit_Cons)

lemma jsSplit_append: "jsSplit [d] (xs @ d # ys) = jsSplit [d] xs @ jsSplit [d] ys"
proof (induction xs)
  case Nil
  then show ?case by (simp add: jsSplit_Nil jsSplit_Cons)
next
  case (Cons c xs)
  obtain l ls where s: "jsSplit [d] xs = l # ls"
    using jsSplit_nonempty [of d xs] by (cases "jsSplit [d] xs") auto
  show ?case using Cons s by (simp add: jsSplit_Cons)
qed

lemma jsReplace_prefix: "pat \<noteq> [] \<Longrightarrow> jsReplace (pat @ s) pat [] = s"
  by (cases pat) (auto simp: jsReplace_def)

lemma trim_plain: "plainId s \<Longrightarrow> trim s = s"
proof -
  assume p: "plainId s"
  then have ne: "s \<noteq> []" and h: "\<not> isWhiteSpace (hd s)" and l: "\<not> isWhiteSpace (last s)"
    by (simp_all add: plainId_def)
  have 1: "dropWhile isWhiteSpace s = s" using ne h by (cases s) auto
  have 2: "dropWhile isWhiteSpace (rev s) = rev s" using ne l by (cases s rule: rev_cases) auto
  show ?thesis by (simp add: trim_def 1 2)
qed

lemma trim_Nil: "trim [] = []"
  by (simp add: trim_def)

lemma cachedIds_line:
  assumes "plainId ident"
  shows "ident \<in> set (cachedIds (''spotify '' @ ident @ [CHR 0x0A]))"
proof -
  have n: "CHR 0x0A \<notin> set (''spotify '' @ ident)" using assms by (simp add: plainId_def)
  have "jsSplit [CHR 0x0A] ((''spotify '' @ ident) @ CHR 0x0A # []) =
        jsSplit [CHR 0x0A] (''spotify '' @ ident) @ jsSplit [CHR 0x0A] []"
    by (rule jsSplit_append)
  then have s: "jsSplit [CHR 0x0A] (''spotify '' @ ident @ [CHR 0x0A]) = [''spotify '' @ ident, []]"
    using jsSplit_no_separator [OF n] by (simp add: jsSplit_Nil)
  have r: "jsReplace (''spotify '' @ ident) ''spotify '' [] = ident"
    by (rule jsReplace_prefix) simp
  have m: "map (\<lambda>line. trim (jsReplace line ''spotify '' [])) [''spotify '' @ ident, []] =
           [ident, trim (jsReplace [] ''spotify '' [])]"
    by (simp only: list.map r trim_plain [OF assms])
  have ne: "ident \<noteq> []" using assms by (simp add: plainId_def)
  show ?thesis
    unfolding cachedIds_def s m using ne by simp
qed

lemma cachedIds_append:
  assumes "terminated c"
  shows "set (cachedIds c) \<union> set (cachedIds t) = set (cachedIds (c @ t))"
proof (cases "c = []")
  case True
  have "cachedIds [] = []"
    by (simp add: cachedIds_def jsSplit_Nil jsReplace_def trim_Nil)
  then show ?thesis using True by simp
next
  case False
  with assms obtain c' where c: "c = c' @ [CHR 0x0A]"
    by (metis terminated_def append_butlast_last_id)
  have 1: "jsSplit [CHR 0x0A] c = jsSplit [CHR 0x0A] c' @ [[]]"
    using jsSplit_append [of "CHR 0x0A" c' "[]"] by (simp add: c jsSplit_Nil)
  have 2: "jsSplit [CHR 0x0A] (c @ t) = jsSplit [CHR 0x0A] c' @ jsSplit [CHR 0x0A] t"
    using jsSplit_append [of "CHR 0x0A" c' t] by (simp add: c)
  show ?thesis
    unfolding cachedIds_def 1 2 by (auto simp: jsReplace_def trim_Nil)
qed

lemma terminated_append_line: "terminated (old @ s @ [CHR 0x0A])"
  by (simp add: terminated_def)

text \<open>What a successful \<open>writeId\<close> leaves in the cache file.\<close>

lemma writeId_contents:
  assumes "dir \<noteq> []" "ident \<noteq> []"
    "mkdirFails faults (dirname cfg (getCacheFile cfg dir)) = None"
    "appendFails faults (getCacheFile cfg dir) = None"
  shows "contents (writeId faults cfg fs dir ident) =
     (contents fs)(getCacheFile cfg dir :=
        Some ((case contents fs (getCacheFile cfg dir) of None \<Rightarrow> [] | Some old \<Rightarrow> old) @
              ''spotify '' @ ident @ [CHR 0x0A]))"
  using assms
  by (simp add: writeId_def Let_def mkdirSync_def appendFileSync_def)

lemma writeId_dir:
  assumes "dir \<noteq> []" "ident \<noteq> []"
    "mkdirFails faults (dirname cfg (getCacheFile cfg dir)) = None"
    "appendFails faults (getCacheFile cfg dir) = None"
  shows "existsSync (writeId faults cfg fs dir ident) (dirname cfg (getCacheFile cfg dir))"
  using assms
  by (auto simp: writeId_def Let_def mkdirSync_def appendFileSync_def existsSync_def)

lemma findId_iff:
  assumes "dir \<noteq> []" "ident \<noteq> []" "readFails faults (getCacheFile cfg dir) = None"
  shows "findId faults cfg fs ident dir \<longleftrightarrow>
     (\<exists>c. contents fs (getCacheFile cfg dir) = Some c \<and> ident \<in> set (cachedIds c))"
  using assms
  by (auto simp: findId_def Let_def existsSync_def readFileSync_def split: option.splits)

lemma findId_after_writeId:
  assumes "dir \<noteq> []" "plainId ident"
    "mkdirFails faults (dirname cfg (getCacheFile cfg dir)) = None"
    "appendFails faults (getCacheFile cfg dir) = None"
    "readFails faults (getCacheFile cfg dir) = None"
    "\<forall>c. contents fs (getCacheFile cfg dir) = Some c \<longrightarrow> terminated c"
  shows "findId faults cfg (writeId faults cfg fs dir ident) ident dir"
proof -
  let ?f = "getCacheFile cfg dir"
  let ?old = "case contents fs ?f of None \<Rightarrow> [] | Some old \<Rightarrow> old"
  have ne: "ident \<noteq> []" using assms(2) by (simp add: plainId_def)
  have t: "terminated ?old" using assms(6) by (auto simp: terminated_def split: option.splits)
  have c: "contents (writeId faults cfg fs dir ident) ?f = Some (?old @ ''spotify '' @ ident @ [CHR 0x0A])"
    using writeId_contents [OF assms(1) ne assms(3,4), of fs] by simp
  have "ident \<in> set (cachedIds (?old @ ''spotify '' @ ident @ [CHR 0x0A]))"
    using cachedIds_append [OF t, of "''spotify '' @ ident @ [CHR 0x0A]"] cachedIds_line [OF assms(2)]
    by blast
  then show ?thesis using c findId_iff [OF assms(1) ne assms(5)] by blast
qed

text \<open>
  C7 (as amended). For every non-empty directory and every non-empty id without a line
  break and without white space at either end (white space is what \<open>trim()\<close> strips: the
  space, the no-break space, the tab, the vertical tab, the form feed, the line feed and
  the carriage return), when the calls of the file system on the
  cache file succeed and the cache file, if it exists, is empty or ends with a line
  break: \<open>record(dir, id)\<close> appends the one line \<open>spotify <id>\<close> with its line break to
  the cache file, after which the directory of the cache file exists, and \<open>has(dir, id)\<close>
  then returns true. For every directory and id, \<open>has\<close> returns false when the cache
  file is absent or unreadable, and a failure inside \<open>record\<close> is caught: the content of
  every file is then as before.
\<close>

theorem writeId_then_findId:
  assumes "dir \<noteq> []" "plainId ident"
    "mkdirFails faults (dirname cfg (getCacheFile cfg dir)) = None"
    "appendFails faults (getCacheFile cfg dir) = None"
    "readFails faults (getCacheFile cfg dir) = None"
    "\<forall>c. contents fs (getCacheFile cfg dir) = Some c \<longrightarrow> terminated c"
  shows "findId faults cfg (writeId faults cfg fs dir ident) ident dir \<and>
    contents (writeId faults cfg fs dir ident) (getCacheFile cfg dir) =
      Some ((case contents fs (getCacheFile cfg dir) of None \<Rightarrow> [] | Some old \<Rightarrow> old) @
            ''spotify '' @ ident @ [CHR 0x0A]) \<and>
    existsSync (writeId faults cfg fs dir ident) (dirname cfg (getCacheFile cfg dir)) \<and>
    (\<not> existsSync fs2 (getCacheFile cfg d2) \<longrightarrow> \<not> findId faults2 cfg fs2 i2 d2) \<and>
    (readFails faults2 (getCacheFile cfg d2) \<noteq> None \<longrightarrow> \<not> findId faults2 cfg fs2 i2 d2) \<and>
    (\<not> existsSync fs2 (dirname cfg (getCacheFile cfg d2)) \<and>
       mkdirFails faults2 (dirname cfg (getCacheFile cfg d2)) \<noteq> None \<or>
     appendFails faults2 (getCacheFile cfg d2) \<noteq> None \<longrightarrow>
       contents (writeId faults2 cfg fs2 d2 i2) = contents fs2)"
proof -
  have ne: "ident \<noteq> []" using assms(2) by (simp add: plainId_def)
  have 1: "findId faults cfg (writeId faults cfg fs dir ident) ident dir"
    by (rule findId_after_writeId [OF assms])
  have 2: "contents (writeId faults cfg fs dir ident) (getCacheFile cfg dir) =
      Some ((case contents fs (getCacheFile cfg dir) of None \<Rightarrow> [] | Some old \<Rightarrow> old) @
            ''spotify '' @ ident @ [CHR 0x0A])"
    using writeId_contents [OF assms(1) ne assms(3,4), of fs] by simp
  have 3: "existsSync (writeId faults cfg fs dir ident) (dirname cfg (getCacheFile cfg dir))"
    by (rule writeId_dir [OF assms(1) ne assms(3,4)])
  have 4: "\<not> existsSync fs2 (getCacheFile cfg d2) \<longrightarrow> \<not> findId faults2 cfg fs2 i2 d2"
    by (simp add: findId_def Let_def)
  have 5: "readFails faults2 (getCacheFile cfg d2) \<noteq> None \<longrightarrow> \<not> findId faults2 cfg fs2 i2 d2"
    by (auto simp: findId_def Let_def readFileSync_def)
  have 6: "\<not> existsSync fs2 (dirname cfg (getCacheFile cfg d2)) \<and>
       mkdirFails faults2 (dirname cfg (getCacheFile cfg d2)) \<noteq> None \<or>
     appendFails faults2 (getCacheFile cfg d2) \<noteq> None \<longrightarrow>
       contents (writeId faults2 cfg fs2 d2 i2) = contents fs2"
    by (auto simp: writeId_def Let_def mkdirSync_def appendFileSync_def split: option.splits)
  show ?thesis using 1 2 3 4 5 6 by blast
qed

theorem writeId_then_findId_witness:
  "findId noFaults defaultConfig (writeId noFaults defaultConfig emptyFs ''/music/A'' ''abc'')
     ''abc'' ''/music/A'' \<and>
   contents (writeId noFaults defaultConfig emptyFs ''/music/A'' ''abc'') ''/music/A/.spdlcache'' =
     Some (''spotify abc'' @ [CHR 0x0A]) \<and>
   \<not> findId noFaults defaultConfig emptyFs ''abc'' ''/music/A''"
proof -
  have h: "''/music/A'' \<noteq> []" "plainId ''abc''"
    "mkdirFails noFaults (dirname defaultConfig (getCacheFile defaultConfig ''/music/A'')) = None"
    "appendFails noFaults (getCacheFile defaultConfig ''/music/A'') = None"
    "readFails noFaults (getCacheFile defaultConfig ''/music/A'') = None"
    "\<forall>c. contents emptyFs (getCacheFile defaultConfig ''/music/A'') = Some c \<longrightarrow> terminated c"
    by (simp_all add: plainId_def isWhiteSpace_def noFaults_def emptyFs_def)
  have g: "getCacheFile defaultConfig ''/music/A'' = ''/music/A/.spdlcache''"
    by (simp add: getCacheFile_def defaultConfig_def)
  have e: "\<not> existsSync emptyFs (getCacheFile defaultConfig ''/music/A'')"
    by (simp add: existsSync_def emptyFs_def)
  from writeId_then_findId [OF h, of emptyFs "''/music/A''" noFaults "''abc''"] e
  show ?thesis by (simp add: g emptyFs_def)
qed

text \<open>
  C7 as stated fails: \<open>findId\<close> trims every line before it compares, so an id that starts
  with a blank, or ends with a no-break space, is written by \<open>record\<close> and never found
  by \<open>has\<close>.
\<close>

theorem findId_misses_untrimmed_id:
  "\<not> findId noFaults defaultConfig (writeId noFaults defaultConfig emptyFs ''/music/A'' '' abc'')
       '' abc'' ''/music/A'' \<and>
   \<not> findId noFaults defaultConfig
       (writeId noFaults defaultConfig emptyFs ''/music/A'' [CHR ''a'', CHR ''b'', CHR ''c'', CHR 0xA0])
       [CHR ''a'', CHR ''b'', CHR ''c'', CHR 0xA0] ''/music/A''"
  by (simp add: findId_def writeId_def defaultConfig_def emptyFs_def noFaults_def getCacheFile_def
      existsSync_def mkdirSync_def appendFileSync_def readFileSync_def cachedIds_def jsSplit.simps
      jsReplace_def trim_def isWhiteSpace_def)

subsection \<open>Batch orchestrator\<close>



























lemma list_all2_settled:
  assumes "list_all2 (\<lambda>x x'. settled x' \<longrightarrow> P x) xs ys" "\<forall>y \<in> set ys. settled y"
  shows "\<forall>x \<in> set xs. P x"
  using assms by (induction rule: list_all2_induct) auto













end
